theory Spec2Isabelle
  imports Complex_Main
begin

section \<open>JavaScript strings\<close>

text \<open>
  A JavaScript string is a sequence of UTF-16 code units. The model uses \<open>string\<close>
  (a list of \<open>char\<close>), that is, the strings whose code units are all below 256. On this
  range the white space of \<open>String.prototype.trim\<close> and of the regular expression class
  \<open>\s\<close> is TAB, LF, VT, FF, CR, SPACE and NO-BREAK SPACE, and the case-insensitive flag
  of a regular expression only identifies the ASCII letters with each other.
\<close>

abbreviation NL :: string where "NL \<equiv> [CHR 0x0A]"
abbreviation DQ :: string where "DQ \<equiv> [CHR 0x22]"
abbreviation SQ :: string where "SQ \<equiv> [CHR 0x27]"

definition digit_char :: "nat \<Rightarrow> char" where
  "digit_char d = ''0123456789'' ! (d mod 10)"

text \<open>The decimal text of a non-negative integer inside a template literal.\<close>

function show_nat :: "nat \<Rightarrow> string" where
  "show_nat n = (if n < 10 then [digit_char n] else show_nat (n div 10) @ [digit_char n])"
  by pat_completeness auto
termination
  by (relation "measure id") auto

declare show_nat.simps [simp del]

fun startsWith :: "string \<Rightarrow> string \<Rightarrow> bool" where
  "startsWith s [] = True"
| "startsWith [] (k # ks) = False"
| "startsWith (c # cs) (k # ks) = (c = k \<and> startsWith cs ks)"

fun includes_str :: "string \<Rightarrow> string \<Rightarrow> bool" where
  "includes_str [] k = (k = [])"
| "includes_str (c # cs) k = (startsWith (c # cs) k \<or> includes_str cs k)"

fun join :: "string \<Rightarrow> string list \<Rightarrow> string" where
  "join sep [] = []"
| "join sep [x] = x"
| "join sep (x # y # ys) = x @ sep @ join sep (y # ys)"

definition is_space :: "char \<Rightarrow> bool" where
  "is_space c = (of_char c \<in> {9, 10, 11, 12, 13, 32, 160 :: nat})"

definition trim :: "string \<Rightarrow> string" where
  "trim s = rev (dropWhile is_space (rev (dropWhile is_space s)))"

definition lower_char :: "char \<Rightarrow> char" where
  "lower_char c =
     (let n = (of_char c :: nat)
      in if (65 \<le> n \<and> n \<le> 90) \<or> (192 \<le> n \<and> n \<le> 222 \<and> n \<noteq> 215)
         then char_of (n + 32) else c)"

definition toLowerCase :: "string \<Rightarrow> string" where
  "toLowerCase s = map lower_char s"

text \<open>
  \<open>s.split('\n')\<close>: the pieces between line feeds; the empty string gives one
  empty piece.
\<close>

fun split_lines :: "string \<Rightarrow> string list" where
  "split_lines [] = [[]]"
| "split_lines (c # cs) =
     (if c = CHR 0x0A then [] # split_lines cs
      else (case split_lines cs of l # ls \<Rightarrow> (c # l) # ls | [] \<Rightarrow> [[c]]))"

section \<open>Data model (\<open>lib/agents/types.ts\<close>, \<open>lib/agents/personas.ts\<close>)\<close>

datatype AdvisorName = naval | elon | larry | alex | pavel

definition ADVISOR_NAMES :: "AdvisorName list" where
  "ADVISOR_NAMES = [naval, elon, larry, alex, pavel]"

text \<open>
  The key of an advisor in \<open>PERSONAS\<close>, which is also the text of the
  identifier.
\<close>

fun advisor_id :: "AdvisorName \<Rightarrow> string" where
  "advisor_id naval = ''naval''"
| "advisor_id elon = ''elon''"
| "advisor_id larry = ''larry''"
| "advisor_id alex = ''alex''"
| "advisor_id pavel = ''pavel''"

datatype PersonaKey = moderator_key | advisor_key AdvisorName

text \<open>\<open>PERSONAS[k].name\<close>. The other fields of a persona are static display data and the
  instruction text; a request to the completion service names the persona whose
  \<open>systemPrompt\<close> it carries.\<close>

fun PERSONAS_name :: "PersonaKey \<Rightarrow> string" where
  "PERSONAS_name moderator_key = ''Council Moderator''"
| "PERSONAS_name (advisor_key naval) = ''Naval Ravikant''"
| "PERSONAS_name (advisor_key elon) = ''Elon Musk''"
| "PERSONAS_name (advisor_key larry) = ''Larry Ellison''"
| "PERSONAS_name (advisor_key alex) = ''Alex Hormozi''"
| "PERSONAS_name (advisor_key pavel) = ''Pavel Durov''"

datatype Role = user | assistant | moderator | advisor_role AdvisorName

text \<open>
  Time stamps (\<open>Date.now()\<close>) are left out of messages and events, and so is what the
  code writes to the console.
\<close>

record Message =
  role :: Role
  msg_content :: string
  msg_round :: "nat option"

record ResearchResult =
  title :: string
  url :: string
  snippet :: string

record DebateState =
  messages :: "Message list"
  currentRound :: nat
  maxRounds :: nat
  consensusReached :: bool
  needsClarification :: bool
  clarificationQuestion :: "string option"
  agentResponses :: "AdvisorName \<rightharpoonup> string list"
  finalAnswer :: "string option"
  researchResults :: "ResearchResult list option"

record ConsensusAnalysis =
  ca_consensusReached :: bool
  agreementLevel :: real
  agreements :: "string list"
  disagreements :: "string list"
  majorityView :: "string option"
  minorityViews :: "string list option"

datatype EventType =
  agent_start | agent_response | agent_complete | moderator_analysis | consensus_check
  | final_answer | error | clarification_needed | research_start | research_complete
  | research_results | cost_estimate | cost_actual | system | status

datatype ClaudeModel = claude_opus_4_5 | claude_sonnet_4_5 | claude_haiku_4
datatype DebateMode = quick | standard | deep

text \<open>The \<open>data\<close> of an event: the sources of a \<open>research_results\<close> event, or the cost
  estimate, a pure function of the four arguments of \<open>estimateDebateCost\<close>, which stand
  for it here.\<close>

datatype EventData =
  Sources "ResearchResult list"
  | CostEstimate ClaudeModel DebateMode nat bool

record StreamEvent =
  type :: EventType
  agent :: "AdvisorName option"
  content :: "string option"
  data :: "EventData option"

definition event :: "EventType \<Rightarrow> AdvisorName option \<Rightarrow> string option \<Rightarrow> StreamEvent" where
  "event t a c = \<lparr>type = t, agent = a, content = c, data = None\<rparr>"

section \<open>The completion service and the search service\<close>

text \<open>
  Values a \<open>throw\<close> can carry: the orchestrator's own error for a round with too few
  responses, a \<open>TypeError\<close> of the runtime, an \<open>Error\<close> of a provider (a time-out is
  one of these), and a thrown value that is not an \<open>Error\<close>.
\<close>

datatype thrown =
  InsufficientResponses nat
  | TypeError string
  | ProviderError string
  | NonError

fun error_message :: "thrown \<Rightarrow> string option" where
  "error_message (InsufficientResponses n) =
     Some (''Insufficient advisor responses: only '' @ show_nat n @ '' succeeded'')"
| "error_message (TypeError m) = Some m"
| "error_message (ProviderError m) = Some m"
| "error_message NonError = None"

text \<open>
  One call of \<open>client.messages.create\<close>: the persona whose system prompt is sent, the
  token limit, the text of the single user message, and the streaming flag.
\<close>

record Request =
  system_of :: PersonaKey
  max_tokens :: nat
  prompt :: string
  stream :: bool

text \<open>
  What a call does: it completes, having delivered the text in pieces (the text deltas
  of a streamed call; for a blocking call the text of the first content block is their
  concatenation), or it throws after having delivered some pieces. The thrown value is
  an \<open>Error\<close> with a message, or something else.
\<close>

datatype Reply = Replied "string list" | Failed "string list" "string option"

fun provider_thrown :: "string option \<Rightarrow> thrown" where
  "provider_thrown (Some m) = ProviderError m"
| "provider_thrown None = NonError"

datatype SearchReply = SearchFailed | SearchResults "ResearchResult list option"

text \<open>
  The surroundings of a session: the completion service, which may answer the same
  request differently each time and is therefore asked with the number of calls made so
  far, the search service, and the process environment.
\<close>

record Env =
  llm :: "nat \<Rightarrow> Request \<Rightarrow> Reply"
  search :: "string \<Rightarrow> SearchReply"
  TAVILY_API_KEY :: "string option"
  development :: bool

text \<open>What a session has done so far: the events given to \<open>onEvent\<close>, in order, and the
  requests sent to the completion service, in order.\<close>

record World =
  events :: "StreamEvent list"
  calls :: "Request list"

definition emit :: "StreamEvent \<Rightarrow> World \<Rightarrow> World" where
  "emit e w = w\<lparr>events := events w @ [e]\<rparr>"

definition emits :: "StreamEvent list \<Rightarrow> World \<Rightarrow> World" where
  "emits es w = w\<lparr>events := events w @ es\<rparr>"

definition call_llm :: "Env \<Rightarrow> Request \<Rightarrow> World \<Rightarrow> World \<times> Reply" where
  "call_llm env rq w = (w\<lparr>calls := calls w @ [rq]\<rparr>, llm env (length (calls w)) rq)"

section \<open>The orchestrator (\<open>CouncilOrchestrator\<close>)\<close>

record OrchestratorConfig =
  cfg_model :: "ClaudeModel option"
  cfg_mode :: "DebateMode option"
  cfg_selectedAdvisors :: "AdvisorName list option"
  cfg_enableResearch :: "bool option"
  cfg_tavilyApiKey :: "string option"

record CouncilOrchestrator =
  this_maxRounds :: nat
  this_model :: string
  this_selectedAdvisors :: "AdvisorName list"
  this_enableResearch :: bool
  this_tavilyClient :: bool
  this_userEnabledResearch :: bool

fun modelMap :: "ClaudeModel \<Rightarrow> string" where
  "modelMap claude_opus_4_5 = ''claude-opus-4-20250514''"
| "modelMap claude_sonnet_4_5 = ''claude-sonnet-4-20250514''"
| "modelMap claude_haiku_4 = ''claude-3-5-haiku-20241022''"

fun modeMap :: "DebateMode \<Rightarrow> nat" where
  "modeMap quick = 1"
| "modeMap standard = 2"
| "modeMap deep = 3"

text \<open>\<open>a || b\<close> on optional strings: the empty string is falsy.\<close>

definition or_string :: "string option \<Rightarrow> string option \<Rightarrow> string option" where
  "or_string a b = (case a of Some (c # cs) \<Rightarrow> a | _ \<Rightarrow> b)"

definition truthy :: "string option \<Rightarrow> bool" where
  "truthy a = (case a of Some (c # cs) \<Rightarrow> True | _ \<Rightarrow> False)"

definition constructor :: "Env \<Rightarrow> OrchestratorConfig option \<Rightarrow> CouncilOrchestrator" where
  "constructor env config =
     (let tavilyKey = or_string (Option.bind config cfg_tavilyApiKey) (TAVILY_API_KEY env);
          userEnabled = (Option.bind config cfg_enableResearch = Some True)
      in \<lparr>this_maxRounds = (case Option.bind config cfg_mode of Some m \<Rightarrow> modeMap m | None \<Rightarrow> 2),
          this_model = (case Option.bind config cfg_model of Some m \<Rightarrow> modelMap m
                        | None \<Rightarrow> ''claude-sonnet-4-20250514''),
          this_selectedAdvisors = (case Option.bind config cfg_selectedAdvisors of Some as \<Rightarrow> as
                                   | None \<Rightarrow> ADVISOR_NAMES),
          this_enableResearch = userEnabled,
          this_tavilyClient = truthy tavilyKey,
          this_userEnabledResearch = userEnabled\<rparr>)"

definition createInitialState :: "CouncilOrchestrator \<Rightarrow> string \<Rightarrow> DebateState" where
  "createInitialState this userQuestion =
     \<lparr>messages = [\<lparr>role = user, msg_content = userQuestion, msg_round = None\<rparr>],
      currentRound = 0,
      maxRounds = this_maxRounds this,
      consensusReached = False,
      needsClarification = False,
      clarificationQuestion = None,
      agentResponses = (\<lambda>a. if a \<in> set (this_selectedAdvisors this) then Some [] else None),
      finalAnswer = None,
      researchResults = None\<rparr>"

text \<open>\<open>state.messages.find((m) => m.role === 'user')?.content || ''\<close>\<close>

definition userQuestionOf :: "DebateState \<Rightarrow> string" where
  "userQuestionOf state =
     (case find (\<lambda>m. role m = user) (messages state) of Some m \<Rightarrow> msg_content m | None \<Rightarrow> [])"

subsection \<open>The prompt of an advisor's turn\<close>

fun citation :: "nat \<times> ResearchResult \<Rightarrow> string" where
  "citation (i, r) =
     ''['' @ show_nat (i + 1) @ ''] '' @ title r @ NL @ ''   Source: '' @ url r @ NL
     @ ''   '' @ snippet r"

definition researchContext :: "DebateState \<Rightarrow> string" where
  "researchContext state =
     (case researchResults state of
        Some (r # rs) \<Rightarrow>
          NL @ NL @ ''**RESEARCH FINDINGS** (cite these sources in your response):'' @ NL
          @ join (NL @ NL) (map citation (enumerate 0 (r # rs)))
          @ NL @ NL @ ''IMPORTANT: When using research findings, cite them like '' @ DQ
          @ ''[1]'' @ DQ @ '' or '' @ DQ @ ''according to [2]'' @ DQ
      | _ \<Rightarrow> [])"

text \<open>The latest response of an advisor in the state, if the advisor has one.\<close>

definition latestResponse :: "DebateState \<Rightarrow> AdvisorName \<Rightarrow> string option" where
  "latestResponse state a =
     (case agentResponses state a of
        Some responses \<Rightarrow> (if responses \<noteq> [] then Some (last responses) else None)
      | None \<Rightarrow> None)"

definition contextEntry :: "DebateState \<Rightarrow> AdvisorName \<Rightarrow> string" where
  "contextEntry state a =
     (case latestResponse state a of
        Some r \<Rightarrow> ''**'' @ PERSONAS_name (advisor_key a) @ ''**: '' @ r @ NL @ NL
      | None \<Rightarrow> [])"

definition buildAdvisorContext ::
  "CouncilOrchestrator \<Rightarrow> DebateState \<Rightarrow> AdvisorName \<Rightarrow> string" where
  "buildAdvisorContext this state currentAdvisor =
     (let otherAdvisors = filter (\<lambda>n. n \<noteq> currentAdvisor) (this_selectedAdvisors this)
      in concat (map (contextEntry state) otherAdvisors))"

text \<open>
  The content of the single message of \<open>contextMessages\<close> in
  \<open>getAdvisorResponse\<close>.
\<close>

definition advisorPrompt ::
  "CouncilOrchestrator \<Rightarrow> DebateState \<Rightarrow> AdvisorName \<Rightarrow> string" where
  "advisorPrompt this state advisorName =
     ''You are participating in an AI council debate. The user has asked:'' @ NL @ NL
     @ DQ @ userQuestionOf state @ DQ @ researchContext state @ NL @ NL
     @ (if currentRound state = 0
        then ''This is Round 1. Provide your initial perspective on this question based on your expertise and thinking framework.''
             @ (if researchContext state \<noteq> []
                then '' Use the research findings above and cite sources with [1], [2], etc.''
                else [])
        else ''This is Round '' @ show_nat (currentRound state + 1) @ ''. Here'' @ SQ
             @ ''s what other advisors have said:'' @ NL @ NL
             @ buildAdvisorContext this state advisorName @ NL @ NL
             @ ''Provide your response, addressing points of agreement or disagreement with other advisors if relevant.''
             @ (if researchContext state \<noteq> []
                then '' Continue citing research sources with [1], [2], etc.''
                else []))"

text \<open>
  \<open>getAdvisorResponse\<close> as \<open>runDebateRound\<close> calls it, with an \<open>onStream\<close> callback
  that turns each text delta into an \<open>agent_response\<close> event: the request is sent, the
  deltas are forwarded in order, and the result is the whole text or the thrown value.
\<close>

definition advisorRequest ::
  "CouncilOrchestrator \<Rightarrow> DebateState \<Rightarrow> AdvisorName \<Rightarrow> Request" where
  "advisorRequest this state advisorName =
     \<lparr>system_of = advisor_key advisorName, max_tokens = 250,
      prompt = advisorPrompt this state advisorName, stream = True\<rparr>"

definition chunkEvent :: "AdvisorName \<Rightarrow> string \<Rightarrow> StreamEvent" where
  "chunkEvent advisorName chunk = event agent_response (Some advisorName) (Some chunk)"

definition getAdvisorResponse ::
  "CouncilOrchestrator \<Rightarrow> Env \<Rightarrow> AdvisorName \<Rightarrow> DebateState \<Rightarrow> World
    \<Rightarrow> World \<times> (thrown + string)" where
  "getAdvisorResponse this env advisorName state w =
     (case call_llm env (advisorRequest this state advisorName) w of
        (w1, Replied chunks) \<Rightarrow>
          (emits (map (chunkEvent advisorName) chunks) w1, Inr (concat chunks))
      | (w1, Failed chunks e) \<Rightarrow>
          (emits (map (chunkEvent advisorName) chunks) w1, Inl (provider_thrown e)))"

subsection \<open>One round\<close>

text \<open>\<open>error instanceof Error ? error.message : 'Unknown error'\<close>\<close>

definition message_or_unknown :: "thrown \<Rightarrow> string" where
  "message_or_unknown e = (case error_message e of Some m \<Rightarrow> m | None \<Rightarrow> ''Unknown error'')"

definition failed_event :: "AdvisorName \<Rightarrow> thrown \<Rightarrow> StreamEvent" where
  "failed_event advisorName e =
     event error None (Some (advisor_id advisorName @ '' failed to respond: '' @ message_or_unknown e))"

text \<open>What \<open>undefined.push(...)\<close> throws.\<close>

definition pushFailure :: thrown where
  "pushFailure =
     TypeError (''Cannot read properties of undefined (reading '' @ SQ @ ''push'' @ SQ @ '')'')"

text \<open>
  The body of the \<open>for\<close> loop of \<open>runDebateRound\<close> for one advisor. The loop carries the
  new state and the count of successful responses. A non-empty response is pushed on
  the advisor's list; when the state has no list for the advisor the push is a
  \<open>TypeError\<close>, caught like any other failure of the turn.
\<close>

definition advisorTurn ::
  "CouncilOrchestrator \<Rightarrow> Env \<Rightarrow> AdvisorName \<Rightarrow> World \<times> DebateState \<times> nat
    \<Rightarrow> World \<times> DebateState \<times> nat" where
  "advisorTurn this env advisorName acc =
     (case acc of (w, newState, successfulResponses) \<Rightarrow>
        (let w1 = emit (event status None
                          (Some (PERSONAS_name (advisor_key advisorName) @ '' is thinking...''))) w;
             w2 = emit (event agent_start (Some advisorName) None) w1;
             (w3, result) = getAdvisorResponse this env advisorName newState w2
         in case result of
              Inl e \<Rightarrow> (emit (failed_event advisorName e) w3, newState, successfulResponses)
            | Inr response \<Rightarrow>
                if response \<noteq> [] then
                  (case agentResponses newState advisorName of
                     None \<Rightarrow>
                       (emit (failed_event advisorName pushFailure) w3,
                        newState, successfulResponses)
                   | Some responses \<Rightarrow>
                       (emit (event agent_complete (Some advisorName) None) w3,
                        newState\<lparr>agentResponses :=
                                    (agentResponses newState)(advisorName \<mapsto> responses @ [response])\<rparr>,
                        successfulResponses + 1))
                else (emit (event agent_complete (Some advisorName) None) w3,
                      newState, successfulResponses)))"

text \<open>
  \<open>runDebateRound\<close>. The new state is a shallow copy, so the lists of responses are
  shared with the state of the caller: the result gives the world, the shared
  \<open>agentResponses\<close> as the round leaves them, and the new state or the thrown error.
\<close>

definition runDebateRound ::
  "CouncilOrchestrator \<Rightarrow> Env \<Rightarrow> DebateState \<Rightarrow> World
    \<Rightarrow> World \<times> (AdvisorName \<rightharpoonup> string list) \<times> (thrown + DebateState)" where
  "runDebateRound this env state w =
     (case fold (advisorTurn this env) (this_selectedAdvisors this)
             (w, state\<lparr>currentRound := currentRound state + 1\<rparr>, 0) of
        (w1, newState, successfulResponses) \<Rightarrow>
          (w1, agentResponses newState,
           if successfulResponses < 2 then Inl (InsufficientResponses successfulResponses)
           else Inr newState))"

section \<open>The consensus analyzer\<close>

text \<open>
  \<open>String.prototype.match\<close> with a regular expression that is not global: the first
  position, from the left, at which the expression matches. The argument says whether
  the expression matches at the start of a text, and with what capture.
\<close>

fun regex_search :: "(string \<Rightarrow> 'a option) \<Rightarrow> string \<Rightarrow> 'a option" where
  "regex_search m [] = m []"
| "regex_search m (c # cs) = (case m (c # cs) of Some r \<Rightarrow> Some r | None \<Rightarrow> regex_search m cs)"

definition upper_ascii :: "char \<Rightarrow> char" where
  "upper_ascii c =
     (let n = (of_char c :: nat) in if 97 \<le> n \<and> n \<le> 122 then char_of (n - 32) else c)"

definition is_digit :: "char \<Rightarrow> bool" where
  "is_digit c = (let n = (of_char c :: nat) in 48 \<le> n \<and> n \<le> 57)"

text \<open>
  \<open>/CONSENSUS:\s*(YES|NO)/i\<close> at the start of a text; the capture is group 1.
\<close>

definition consensus_here :: "string \<Rightarrow> string option" where
  "consensus_here s =
     (if startsWith (map upper_ascii s) ''CONSENSUS:'' then
        (let r = dropWhile is_space (drop 10 s)
         in if startsWith (map upper_ascii r) ''YES'' then Some (take 3 r)
            else if startsWith (map upper_ascii r) ''NO'' then Some (take 2 r)
            else None)
      else None)"

text \<open>\<open>/AGREEMENT_LEVEL:\s*(\d+)/\<close> at the start of a text.\<close>

definition agreement_here :: "string \<Rightarrow> string option" where
  "agreement_here s =
     (if startsWith s ''AGREEMENT_LEVEL:'' then
        (let d = takeWhile is_digit (dropWhile is_space (drop 16 s))
         in if d = [] then None else Some d)
      else None)"

text \<open>The lazy \<open>([\s\S]*?)\<close> before the look-ahead \<open>(?=stop|$)\<close>: the text up to the first
  occurrence of the stop label, or all of it.\<close>

fun until_stop :: "string \<Rightarrow> string \<Rightarrow> string" where
  "until_stop stop [] = []"
| "until_stop stop (c # cs) = (if startsWith (c # cs) stop then [] else c # until_stop stop cs)"

text \<open>\<open>/LABEL:([\s\S]*?)(?=STOP:|$)/\<close> at the start of a text.\<close>

definition section_here :: "string \<Rightarrow> string \<Rightarrow> string \<Rightarrow> string option" where
  "section_here label stop s =
     (if startsWith s label then Some (until_stop stop (drop (length label) s)) else None)"

text \<open>\<open>/MINORITY_VIEWS:([\s\S]*?)$/\<close> at the start of a text.\<close>

definition rest_here :: "string \<Rightarrow> string \<Rightarrow> string option" where
  "rest_here label s = (if startsWith s label then Some (drop (length label) s) else None)"

text \<open>\<open>parseInt\<close> of a run of decimal digits.\<close>

definition parseInt :: "string \<Rightarrow> nat" where
  "parseInt d = foldl (\<lambda>acc c. 10 * acc + (of_char c - 48)) 0 d"

definition parseList :: "string \<Rightarrow> string list" where
  "parseList text =
     map (\<lambda>line. trim (drop 1 (trim line)))
       (filter (\<lambda>line. startsWith (trim line) ''-'') (split_lines text))"

text \<open>The parsing of the moderator's reply at the end of \<open>analyzeConsensus\<close>. The
  agreement level is the exact quotient; the floating-point quotient of the source is
  below 0, or above 1, exactly when this one is.\<close>

definition parseConsensus :: "string \<Rightarrow> ConsensusAnalysis" where
  "parseConsensus reply =
     (let consensusMatch = regex_search consensus_here reply;
          agreementLevelMatch = regex_search agreement_here reply;
          agreementsMatch = regex_search (section_here ''AGREEMENTS:'' ''DISAGREEMENTS:'') reply;
          disagreementsMatch =
            regex_search (section_here ''DISAGREEMENTS:'' ''MAJORITY_VIEW:'') reply;
          majorityViewMatch =
            regex_search (section_here ''MAJORITY_VIEW:'' ''MINORITY_VIEWS:'') reply;
          minorityViewsMatch = regex_search (rest_here ''MINORITY_VIEWS:'') reply
      in \<lparr>ca_consensusReached =
            (case consensusMatch of Some g \<Rightarrow> map upper_ascii g = ''YES'' | None \<Rightarrow> False),
          agreementLevel =
            (case agreementLevelMatch of Some d \<Rightarrow> real (parseInt d) / 100 | None \<Rightarrow> 0),
          agreements = (case agreementsMatch of Some t \<Rightarrow> parseList t | None \<Rightarrow> []),
          disagreements = (case disagreementsMatch of Some t \<Rightarrow> parseList t | None \<Rightarrow> []),
          majorityView = map_option trim majorityViewMatch,
          minorityViews = map_option (\<lambda>t. [trim t]) minorityViewsMatch\<rparr>)"

text \<open>The latest response of each selected advisor, with the advisor's display name,
  those without a response left out.\<close>

definition latestResponses :: "CouncilOrchestrator \<Rightarrow> DebateState \<Rightarrow> (string \<times> string) list" where
  "latestResponses this state =
     filter (\<lambda>r. snd r \<noteq> [])
       (map (\<lambda>name. (PERSONAS_name (advisor_key name),
                      case latestResponse state name of Some r \<Rightarrow> r | None \<Rightarrow> []))
          (this_selectedAdvisors this))"

definition responsesBlock :: "(string \<times> string) list \<Rightarrow> string" where
  "responsesBlock rs = join (NL @ ''---'' @ NL) (map (\<lambda>r. fst r @ '':'' @ NL @ snd r @ NL) rs)"

definition analysisPrompt :: "CouncilOrchestrator \<Rightarrow> DebateState \<Rightarrow> string" where
  "analysisPrompt this state =
     ''Analyze the following advisor responses to determine if consensus has been reached.''
     @ NL @ NL @ ''User Question: '' @ DQ @ userQuestionOf state @ DQ @ NL @ NL
     @ ''Advisor Responses:'' @ NL @ responsesBlock (latestResponses this state) @ NL @ NL
     @ ''Determine:'' @ NL
     @ ''1. Is there consensus on the core answer/recommendation? (3+ advisors must agree on the fundamental answer)'' @ NL
     @ ''2. What are the key points of agreement?'' @ NL
     @ ''3. What are the key points of disagreement?'' @ NL
     @ ''4. What is the majority view?'' @ NL
     @ ''5. Are there minority views worth noting?'' @ NL @ NL
     @ ''Respond in this format:'' @ NL
     @ ''CONSENSUS: [YES/NO]'' @ NL
     @ ''AGREEMENT_LEVEL: [0-100]'' @ NL
     @ ''AGREEMENTS:'' @ NL @ ''- [point 1]'' @ NL @ ''- [point 2]'' @ NL
     @ ''DISAGREEMENTS:'' @ NL @ ''- [point 1]'' @ NL @ ''- [point 2]'' @ NL
     @ ''MAJORITY_VIEW: [summary]'' @ NL
     @ ''MINORITY_VIEWS: [summary if any]''"

definition defaultAnalysis :: ConsensusAnalysis where
  "defaultAnalysis =
     \<lparr>ca_consensusReached = False, agreementLevel = 0, agreements = [], disagreements = [],
      majorityView = None, minorityViews = None\<rparr>"

text \<open>A blocking call: the text of the reply, or the thrown value. (A reply without any
  content block makes the read of \<open>response.content[0].type\<close> throw; it counts as a
  failed reply.)\<close>

definition complete_text :: "Env \<Rightarrow> Request \<Rightarrow> World \<Rightarrow> World \<times> (thrown + string)" where
  "complete_text env rq w =
     (case call_llm env rq w of
        (w1, Replied chunks) \<Rightarrow> (w1, Inr (concat chunks))
      | (w1, Failed chunks e) \<Rightarrow> (w1, Inl (provider_thrown e)))"

definition analyzeConsensus ::
  "CouncilOrchestrator \<Rightarrow> Env \<Rightarrow> DebateState \<Rightarrow> World \<Rightarrow> World \<times> (thrown + ConsensusAnalysis)" where
  "analyzeConsensus this env state w =
     (if length (latestResponses this state) < 3 then (w, Inr defaultAnalysis)
      else
        (case complete_text env
                \<lparr>system_of = moderator_key, max_tokens = 1000,
                 prompt = analysisPrompt this state, stream = False\<rparr> w of
           (w1, Inl e) \<Rightarrow> (w1, Inl e)
         | (w1, Inr reply) \<Rightarrow> (w1, Inr (parseConsensus reply))))"

subsection \<open>The final answer\<close>

text \<open>\<open>Math.round\<close> of a number that is not negative.\<close>

definition Math_round :: "real \<Rightarrow> nat" where
  "Math_round x = nat \<lfloor>x + 1 / 2\<rfloor>"

definition finalPrompt :: "CouncilOrchestrator \<Rightarrow> DebateState \<Rightarrow> ConsensusAnalysis \<Rightarrow> string" where
  "finalPrompt this state consensus =
     ''Synthesize a final answer to the user'' @ SQ @ ''s question based on the council''
     @ SQ @ ''s debate.'' @ NL @ NL
     @ ''User Question: '' @ DQ @ userQuestionOf state @ DQ @ NL @ NL
     @ ''Consensus Analysis:'' @ NL
     @ ''- Consensus Reached: '' @ (if ca_consensusReached consensus then ''Yes'' else ''No'') @ NL
     @ ''- Agreement Level: '' @ show_nat (Math_round (agreementLevel consensus * 100)) @ ''%'' @ NL
     @ ''- Key Agreements: '' @ join ''; '' (agreements consensus) @ NL
     @ ''- Key Disagreements: '' @ join ''; '' (disagreements consensus) @ NL @ NL
     @ ''Advisor Perspectives:'' @ NL @ responsesBlock (latestResponses this state) @ NL @ NL
     @ ''Provide a clear, actionable final answer that:'' @ NL
     @ ''1. Directly answers the user'' @ SQ @ ''s question'' @ NL
     @ ''2. Incorporates the collective wisdom of the council'' @ NL
     @ ''3. Highlights key insights and recommendations'' @ NL
     @ ''4. Notes any important caveats or alternative perspectives'' @ NL
     @ ''5. Is structured and easy to follow'' @ NL @ NL
     @ (if ca_consensusReached consensus
        then ''The advisors have reached consensus, so present a unified recommendation.''
        else ''The advisors have not fully agreed, so present the majority view while acknowledging alternative perspectives.'')"

definition generateFinalAnswer ::
  "CouncilOrchestrator \<Rightarrow> Env \<Rightarrow> DebateState \<Rightarrow> ConsensusAnalysis \<Rightarrow> World
    \<Rightarrow> World \<times> (thrown + string)" where
  "generateFinalAnswer this env state consensus w =
     complete_text env
       \<lparr>system_of = moderator_key, max_tokens = 1500,
        prompt = finalPrompt this state consensus, stream = False\<rparr> w"

section \<open>Research\<close>

definition researchKeywords :: "string list" where
  "researchKeywords =
     [''research'', ''search'', ''look online'', ''look up'', ''find online'', ''check online'',
      ''google'', ''what does the data say'', ''latest data'', ''current data'', ''recent data'',
      ''find out'', ''look it up'', ''check the'', ''verify'', ''fact check'', ''statistics'',
      ''stats on'', ''numbers on'', ''data on'']"

definition shouldActivateResearch :: "CouncilOrchestrator \<Rightarrow> string \<Rightarrow> bool" where
  "shouldActivateResearch this question =
     (if \<not> this_tavilyClient this then False
      else if this_userEnabledResearch this then True
      else list_ex (includes_str (toLowerCase question)) researchKeywords)"

text \<open>A result of the search service as \<open>performResearch\<close> normalises it: a missing or
  empty title becomes \<open>Untitled\<close>; a missing address or text becomes empty.\<close>

definition normalise_result :: "ResearchResult \<Rightarrow> ResearchResult" where
  "normalise_result r = r\<lparr>title := (if title r = [] then ''Untitled'' else title r)\<rparr>"

definition performResearch ::
  "CouncilOrchestrator \<Rightarrow> Env \<Rightarrow> string \<Rightarrow> World \<Rightarrow> World \<times> ResearchResult list" where
  "performResearch this env query w =
     (if this_enableResearch this \<and> \<not> this_tavilyClient this then
        (emit (event system None
                 (Some ''Research requested but TAVILY_API_KEY not configured. Get your free API key at https://tavily.com'')) w,
         [])
      else if \<not> this_enableResearch this \<or> \<not> this_tavilyClient this then (w, [])
      else
        (let w1 = emit (event research_start None (Some (''Searching for: '' @ query))) w
         in case search env query of
              SearchResults found \<Rightarrow>
                (emit (event research_complete None None) w1,
                 case found of Some rs \<Rightarrow> map normalise_result rs | None \<Rightarrow> [])
            | SearchFailed \<Rightarrow> (emit (event research_complete None None) w1, [])))"

section \<open>The debate (\<open>runCouncilDebate\<close>)\<close>

definition modelKey :: "CouncilOrchestrator \<Rightarrow> ClaudeModel" where
  "modelKey this =
     (if includes_str (this_model this) ''opus'' then claude_opus_4_5
      else if includes_str (this_model this) ''haiku'' then claude_haiku_4
      else claude_sonnet_4_5)"

definition modeKey :: "CouncilOrchestrator \<Rightarrow> DebateMode" where
  "modeKey this =
     (if this_maxRounds this = 1 then quick
      else if this_maxRounds this = 3 then deep
      else standard)"

definition costEstimateEvent :: "CouncilOrchestrator \<Rightarrow> StreamEvent" where
  "costEstimateEvent this =
     \<lparr>type = cost_estimate, agent = None, content = None,
      data = Some (CostEstimate (modelKey this) (modeKey this)
                     (length (this_selectedAdvisors this)) (this_enableResearch this))\<rparr>"

text \<open>The research step before the first round.\<close>

definition researchStep ::
  "CouncilOrchestrator \<Rightarrow> Env \<Rightarrow> string \<Rightarrow> DebateState \<Rightarrow> World \<Rightarrow> World \<times> DebateState" where
  "researchStep this env userQuestion state w =
     (if shouldActivateResearch this userQuestion then
        (let w1 = emit (event status None (Some ''Performing web research...'')) w;
             (w2, results) = performResearch this env userQuestion w1
         in if results \<noteq> [] then
              (emit \<lparr>type = research_results, agent = None,
                     content = Some (''Found '' @ show_nat (length results) @ '' relevant sources''),
                     data = Some (Sources results)\<rparr> w2,
               state\<lparr>researchResults := Some results\<rparr>)
            else (w2, state))
      else (w, state))"

text \<open>How the body of the round loop leaves the function, when it does: with the final
  answer, or with a thrown value that nothing in \<open>runCouncilDebate\<close> catches.\<close>

datatype Exit = Returned string | Aborted thrown

definition roundStartEvents :: "CouncilOrchestrator \<Rightarrow> nat \<Rightarrow> StreamEvent list" where
  "roundStartEvents this rnd =
     [event status None
        (Some (''Round '' @ show_nat (rnd + 1) @ '' of '' @ show_nat (this_maxRounds this))),
      event moderator_analysis None (Some (''Starting Round '' @ show_nat (rnd + 1) @ ''...''))]"

definition consensusCheckEvents :: "StreamEvent list" where
  "consensusCheckEvents =
     [event status None (Some ''Checking for consensus...''),
      event consensus_check None (Some ''Analyzing consensus...'')]"

definition consensusReachedEvents :: "StreamEvent list" where
  "consensusReachedEvents =
     [event status None (Some ''Generating final consensus...''),
      event moderator_analysis None (Some ''Consensus reached! Generating final answer...'')]"

text \<open>
  The body of the \<open>for\<close> loop over the rounds, for the loop variable \<open>round\<close> (here \<open>rnd\<close>): the
  world and state it leaves, and the exit if it leaves the function. When the round
  throws, the variable \<open>state\<close> still holds the old state, whose lists of responses
  are the shared ones.
\<close>

definition debateIteration ::
  "CouncilOrchestrator \<Rightarrow> Env \<Rightarrow> nat \<Rightarrow> DebateState \<Rightarrow> World
    \<Rightarrow> World \<times> DebateState \<times> Exit option" where
  "debateIteration this env rnd state w =
     (case runDebateRound this env state (emits (roundStartEvents this rnd) w) of
        (w1, shared, Inl e) \<Rightarrow> (w1, state\<lparr>agentResponses := shared\<rparr>, Some (Aborted e))
      | (w1, shared, Inr state1) \<Rightarrow>
          if rnd \<ge> 1 then
            (case analyzeConsensus this env state1 (emits consensusCheckEvents w1) of
               (w2, Inl e) \<Rightarrow> (w2, state1, Some (Aborted e))
             | (w2, Inr consensus) \<Rightarrow>
                 if ca_consensusReached consensus then
                   (case generateFinalAnswer this env state1 consensus
                           (emits consensusReachedEvents w2) of
                      (w3, Inl e) \<Rightarrow> (w3, state1, Some (Aborted e))
                    | (w3, Inr answer) \<Rightarrow>
                        (emit (event final_answer None (Some answer)) w3,
                         state1\<lparr>consensusReached := True, finalAnswer := Some answer\<rparr>,
                         Some (Returned answer)))
                 else (w2, state1, None))
          else (w1, state1, None))"

text \<open>
  The loop \<open>for (let round = 0; round < this.maxRounds; round++)\<close>.
\<close>

function debateRounds ::
  "CouncilOrchestrator \<Rightarrow> Env \<Rightarrow> nat \<Rightarrow> DebateState \<Rightarrow> World
    \<Rightarrow> World \<times> DebateState \<times> Exit option" where
  "debateRounds this env rnd state w =
     (if rnd < this_maxRounds this then
        (case debateIteration this env rnd state w of
           (w1, state1, Some exit) \<Rightarrow> (w1, state1, Some exit)
         | (w1, state1, None) \<Rightarrow> debateRounds this env (rnd + 1) state1 w1)
      else (w, state, None))"
  by pat_completeness auto
termination
  by (relation "measure (\<lambda>(this, env, rnd, state, w). this_maxRounds this - rnd)") auto

declare debateRounds.simps [simp del]

definition maxRoundsEvent :: StreamEvent where
  "maxRoundsEvent =
     event moderator_analysis None (Some ''Maximum rounds reached. Synthesizing perspectives...'')"

text \<open>
  The code after the loop, reached when no round has ended the debate. It asks
  \<open>analyzeConsensus\<close> for a verdict of its own, whatever the number of rounds, and
  hands it to \<open>generateFinalAnswer\<close>.
\<close>

definition synthesize ::
  "CouncilOrchestrator \<Rightarrow> Env \<Rightarrow> DebateState \<Rightarrow> World
    \<Rightarrow> World \<times> DebateState \<times> (thrown + string)" where
  "synthesize this env state w =
     (let w1 = emit maxRoundsEvent w
      in case analyzeConsensus this env state w1 of
           (w2, Inl e) \<Rightarrow> (w2, state, Inl e)
         | (w2, Inr consensus) \<Rightarrow>
             (case generateFinalAnswer this env state consensus w2 of
                (w3, Inl e) \<Rightarrow> (w3, state, Inl e)
              | (w3, Inr answer) \<Rightarrow>
                  (emit (event final_answer None (Some answer)) w3,
                   state\<lparr>finalAnswer := Some answer\<rparr>, Inr answer)))"

text \<open>
  \<open>runCouncilDebate\<close>: the world and the variable \<open>state\<close> as the function leaves them,
  and the final answer it returns or the value it throws. The parameters
  \<open>conversationHistory\<close> and \<open>options\<close> are not read by the function and are left out; the
  clarification step is commented out in the source.
\<close>

definition runCouncilDebate ::
  "CouncilOrchestrator \<Rightarrow> Env \<Rightarrow> string \<Rightarrow> World \<Rightarrow> World \<times> DebateState \<times> (thrown + string)" where
  "runCouncilDebate this env userQuestion w =
     (let state0 = createInitialState this userQuestion;
          w1 = emit (costEstimateEvent this) w;
          (w2, state1) = researchStep this env userQuestion state0 w1
      in case debateRounds this env 0 state1 w2 of
           (w3, state2, Some (Returned answer)) \<Rightarrow> (w3, state2, Inr answer)
         | (w3, state2, Some (Aborted e)) \<Rightarrow> (w3, state2, Inl e)
         | (w3, state2, None) \<Rightarrow> synthesize this env state2 w3)"

section \<open>The route (\<open>app/api/council/route.ts\<close>)\<close>

text \<open>\<open>getSafeErrorMessage\<close> of \<open>lib/utils/security\<close>.\<close>

definition getSafeErrorMessage :: "Env \<Rightarrow> thrown \<Rightarrow> string" where
  "getSafeErrorMessage env e =
     (if development env then
        (case error_message e of Some m \<Rightarrow> m | None \<Rightarrow> ''Unknown error occurred'')
      else
        (case error_message e of
           Some m \<Rightarrow>
             if includes_str m ''API key'' then ''Invalid API key. Please check your settings.''
             else if includes_str m ''rate limit'' then ''Too many requests. Please try again later.''
             else if includes_str m ''timeout'' then ''Request timed out. Please try again.''
             else if includes_str m ''network'' then ''Network error. Please check your connection.''
             else ''An error occurred. Please try again.''
         | None \<Rightarrow> ''An error occurred. Please try again.''))"

text \<open>The fields of a validated request that the debate uses.\<close>

record CouncilDebateRequest =
  question :: string
  mode :: DebateMode
  advisors :: "AdvisorName list"
  model :: ClaudeModel
  enableResearch :: bool
  tavilyKey :: "string option"

definition orchestratorOf :: "Env \<Rightarrow> CouncilDebateRequest \<Rightarrow> CouncilOrchestrator" where
  "orchestratorOf env validatedData =
     constructor env
       (Some \<lparr>cfg_model = Some (model validatedData), cfg_mode = Some (mode validatedData),
              cfg_selectedAdvisors = Some (advisors validatedData),
              cfg_enableResearch = Some (enableResearch validatedData),
              cfg_tavilyApiKey = tavilyKey validatedData\<rparr>)"

definition noWorld :: World where
  "noWorld = \<lparr>events = [], calls = []\<rparr>"

text \<open>
  The background task of \<open>POST\<close>: it runs the debate, writing each event to the
  response stream, and on a thrown value writes one more \<open>error\<close> event. The result is
  the sequence of events written to the stream.
\<close>

definition POST_stream :: "Env \<Rightarrow> CouncilDebateRequest \<Rightarrow> StreamEvent list" where
  "POST_stream env validatedData =
     (case runCouncilDebate (orchestratorOf env validatedData) env (question validatedData) noWorld of
        (w, state, Inr answer) \<Rightarrow> events w
      | (w, state, Inl e) \<Rightarrow> events w @ [event error None (Some (getSafeErrorMessage env e))])"

section \<open>Notions used in the statements\<close>

subsection \<open>Turns and rounds\<close>

text \<open>The two events that open the turn of an advisor.\<close>

definition turnOpening :: "AdvisorName \<Rightarrow> StreamEvent list" where
  "turnOpening a =
     [event status None (Some (PERSONAS_name (advisor_key a) @ '' is thinking...'')),
      event agent_start (Some a) None]"

text \<open>
  The reply of the completion service to the request of the turn of \<open>a\<close>, when
  the turn begins in the world \<open>w\<close> and the state \<open>st\<close>.
\<close>

definition turnReply :: "CouncilOrchestrator \<Rightarrow> Env \<Rightarrow> AdvisorName \<Rightarrow> World \<Rightarrow> DebateState \<Rightarrow> Reply" where
  "turnReply this env a w st = llm env (length (calls w)) (advisorRequest this st a)"

text \<open>
  The world after a turn: the opening events, one \<open>agent_response\<close> event for
  each text delta, and the closing event; the request is added to the requests sent.
\<close>

definition afterTurn :: "CouncilOrchestrator \<Rightarrow> AdvisorName \<Rightarrow> World \<Rightarrow> DebateState \<Rightarrow> string list \<Rightarrow> StreamEvent \<Rightarrow> World" where
  "afterTurn this a w st chunks final =
     \<lparr>events = events w @ turnOpening a @ map (chunkEvent a) chunks @ [final],
      calls = calls w @ [advisorRequest this st a]\<rparr>"

text \<open>
  A turn closes with the \<open>agent_complete\<close> event of its advisor, or with the
  \<open>error\<close> event of its failure.
\<close>

definition turnClosing :: "AdvisorName \<Rightarrow> StreamEvent \<Rightarrow> bool" where
  "turnClosing a final = (final = event agent_complete (Some a) None \<or> (\<exists>e. final = failed_event a e))"

text \<open>
  The events of a round: the turns of the advisors, each complete before the next begins,
  in the order of the list.
\<close>

inductive roundTrace :: "AdvisorName list \<Rightarrow> StreamEvent list \<Rightarrow> bool" where
  roundTrace_Nil: "roundTrace [] []"
| roundTrace_Cons: "turnClosing a final \<Longrightarrow> roundTrace as E \<Longrightarrow>
     roundTrace (a # as) (turnOpening a @ map (chunkEvent a) chunks @ final # E)"

text \<open>
  The response that a reply gives to a turn: its whole text, unless the text is empty or
  the call threw.
\<close>

fun replyText :: "Reply \<Rightarrow> string option" where
  "replyText (Replied chunks) = (if concat chunks = [] then None else Some (concat chunks))"
| "replyText (Failed chunks e) = None"

text \<open>
  The turns of a round that begins after \<open>k\<close> requests: each advisor with the
  number of its call and its request.
\<close>

definition turnsOf :: "AdvisorName list \<Rightarrow> nat \<Rightarrow> Request list \<Rightarrow> (AdvisorName \<times> nat \<times> Request) list" where
  "turnsOf as k R = zip as (zip [k..<k + length as] R)"

text \<open>
  What the turns of a round append to the list of the advisor \<open>a\<close>: the
  responses of the turns of \<open>a\<close>, in order.
\<close>

definition appendedBy :: "Env \<Rightarrow> AdvisorName \<Rightarrow> (AdvisorName \<times> nat \<times> Request) list \<Rightarrow> string list" where
  "appendedBy env a turns =
     List.map_filter (\<lambda>(b, i, rq). if b = a then replyText (llm env i rq) else None) turns"

text \<open>
  The number of turns that give a response to an advisor that has a list in the state.
\<close>

definition successes :: "Env \<Rightarrow> DebateState \<Rightarrow> (AdvisorName \<times> nat \<times> Request) list \<Rightarrow> nat" where
  "successes env st turns =
     length (filter (\<lambda>(b, i, rq). replyText (llm env i rq) \<noteq> None \<and> agentResponses st b \<noteq> None) turns)"

text \<open>
  The turns of a round that begins in the world \<open>w0\<close> and ends in the world \<open>w1\<close>: each
  entry of the list of advisors with the number of its call and the request that the
  round has sent for it.
\<close>

definition roundTurns :: "CouncilOrchestrator \<Rightarrow> World \<Rightarrow> World \<Rightarrow> (AdvisorName \<times> nat \<times> Request) list" where
  "roundTurns this w0 w1 =
     turnsOf (this_selectedAdvisors this) (length (calls w0)) (drop (length (calls w0)) (calls w1))"

text \<open>
  The number of turns whose call succeeds: the call returns, and its response is not empty.
\<close>

definition responded :: "Env \<Rightarrow> (AdvisorName \<times> nat \<times> Request) list \<Rightarrow> nat" where
  "responded env turns = length (filter (\<lambda>(b, i, rq). replyText (llm env i rq) \<noteq> None) turns)"

text \<open>The advisor has a latest response, and it is not empty.\<close>

definition hasResponse :: "DebateState \<Rightarrow> AdvisorName \<Rightarrow> bool" where
  "hasResponse state a =
     (case agentResponses state a of Some rs \<Rightarrow> rs \<noteq> [] \<and> last rs \<noteq> [] | None \<Rightarrow> False)"

subsection \<open>Event streams\<close>

text \<open>
  The event that announces a round, and the number of rounds a stream has begun.
\<close>

definition isRoundStart :: "StreamEvent \<Rightarrow> bool" where
  "isRoundStart e =
     (type e = moderator_analysis
      \<and> (case content e of Some c \<Rightarrow> startsWith c ''Starting Round '' | None \<Rightarrow> False))"

definition roundsStarted :: "StreamEvent list \<Rightarrow> nat" where
  "roundsStarted evs = length (filter isRoundStart evs)"

definition finalAnswers :: "StreamEvent list \<Rightarrow> nat" where
  "finalAnswers evs = length (filter (\<lambda>e. type e = final_answer) evs)"

text \<open>
  The order of a stream, as an automaton over its events. Between turns the phase is
  \<open>Idle\<close>; \<open>agent_start\<close> of an advisor opens its turn (\<open>Speaking\<close>), in which only
  \<open>agent_response\<close> events of that advisor may follow, until its \<open>agent_complete\<close>,
  or an \<open>error\<close> event, closes the turn. A \<open>consensus_check\<close> event is refused within a
  turn; after it (\<open>Checked\<close>) no event of a turn is accepted until the next round is
  announced. A stream is in order when the automaton accepts it: \<open>phaseRun\<close> is not \<open>None\<close>.
\<close>

datatype Phase = Idle | Speaking AdvisorName | Checked

definition phaseStep :: "Phase \<Rightarrow> StreamEvent \<Rightarrow> Phase option" where
  "phaseStep p e =
     (case p of
        Speaking a \<Rightarrow>
          if type e = agent_response \<and> agent e = Some a then Some (Speaking a)
          else if type e = agent_complete \<and> agent e = Some a then Some Idle
          else if type e = error then Some Idle
          else None
      | _ \<Rightarrow>
          if type e = agent_start then
            (case agent e of Some a \<Rightarrow> (if p = Idle then Some (Speaking a) else None) | None \<Rightarrow> None)
          else if type e = agent_response \<or> type e = agent_complete then None
          else if type e = consensus_check then Some Checked
          else if isRoundStart e then Some Idle
          else Some p)"

fun phaseRun :: "Phase \<Rightarrow> StreamEvent list \<Rightarrow> Phase option" where
  "phaseRun p [] = Some p"
| "phaseRun p (e # es) = (case phaseStep p e of Some q \<Rightarrow> phaseRun q es | None \<Rightarrow> None)"

definition quiet :: "Phase \<Rightarrow> bool" where
  "quiet p = (p = Idle \<or> p = Checked)"

text \<open>
  Every \<open>consensus_check\<close> event comes after at least two announcements of a
  round, \<open>k\<close> of them having come before the stream.
\<close>

fun checksOK :: "nat \<Rightarrow> StreamEvent list \<Rightarrow> bool" where
  "checksOK k [] = True"
| "checksOK k (e # es) =
     ((type e = consensus_check \<longrightarrow> 2 \<le> k) \<and> checksOK (if isRoundStart e then Suc k else k) es)"

text \<open>
  An event of a turn; an \<open>error\<close> among them is the failure of a turn.
\<close>

definition turnEvent :: "StreamEvent \<Rightarrow> bool" where
  "turnEvent e =
     (type e \<in> {status, agent_start, agent_response, agent_complete}
      \<or> (\<exists>a t. e = failed_event a t))"

text \<open>
  What follows the turns of round \<open>rnd\<close> in an iteration of the loop, for each
  way the iteration ends.
\<close>

definition tailOK :: "nat \<Rightarrow> Exit option \<Rightarrow> StreamEvent list \<Rightarrow> bool" where
  "tailOK rnd x T =
     (case x of
        Some (Returned answer) \<Rightarrow>
          1 \<le> rnd \<and> T = consensusCheckEvents @ consensusReachedEvents
                          @ [event final_answer None (Some answer)]
      | Some (Aborted e) \<Rightarrow>
          T = [] \<or> (1 \<le> rnd \<and> (T = consensusCheckEvents
                                 \<or> T = consensusCheckEvents @ consensusReachedEvents))
      | None \<Rightarrow> (if rnd = 0 then T = [] else T = consensusCheckEvents))"

text \<open>The events of the loop from round \<open>rnd\<close> on.\<close>

inductive loopTrace :: "CouncilOrchestrator \<Rightarrow> nat \<Rightarrow> Exit option \<Rightarrow> StreamEvent list \<Rightarrow> bool" where
  loop_done: "\<not> rnd < this_maxRounds this \<Longrightarrow> loopTrace this rnd None []"
| loop_exit: "rnd < this_maxRounds this \<Longrightarrow> roundTrace (this_selectedAdvisors this) E \<Longrightarrow>
     tailOK rnd (Some x) T \<Longrightarrow> loopTrace this rnd (Some x) (roundStartEvents this rnd @ E @ T)"
| loop_next: "rnd < this_maxRounds this \<Longrightarrow> roundTrace (this_selectedAdvisors this) E \<Longrightarrow>
     tailOK rnd None T \<Longrightarrow> loopTrace this (Suc rnd) x L \<Longrightarrow>
     loopTrace this rnd x (roundStartEvents this rnd @ E @ T @ L)"

text \<open>
  The fields of the state that the rounds leave alone, and the final answer after an exit.
\<close>

definition sameSession :: "DebateState \<Rightarrow> DebateState \<Rightarrow> bool" where
  "sameSession st st' =
     (messages st' = messages st \<and> maxRounds st' = maxRounds st
      \<and> needsClarification st' = needsClarification st
      \<and> clarificationQuestion st' = clarificationQuestion st
      \<and> researchResults st' = researchResults st)"

definition answerOf :: "Exit option \<Rightarrow> string option \<Rightarrow> string option" where
  "answerOf x old = (case x of Some (Returned answer) \<Rightarrow> Some answer | _ \<Rightarrow> old)"

text \<open>The events of the research step, and the events after the loop.\<close>

definition researchOnly :: "StreamEvent list \<Rightarrow> bool" where
  "researchOnly Rs =
     (\<forall>e\<in>set Rs. type e \<in> {status, system, research_start, research_complete, research_results})"

definition synTail :: "Exit option \<Rightarrow> thrown + string \<Rightarrow> StreamEvent list \<Rightarrow> bool" where
  "synTail x r S =
     (case x of
        Some (Returned answer) \<Rightarrow> S = [] \<and> r = Inr answer
      | Some (Aborted e) \<Rightarrow> S = [] \<and> r = Inl e
      | None \<Rightarrow>
          (case r of
             Inr answer \<Rightarrow> S = [maxRoundsEvent, event final_answer None (Some answer)]
           | Inl e \<Rightarrow> S = [maxRoundsEvent]))"

text \<open>
  The iterations that the loop of a session reaches: the first begins after the cost
  estimate and the research step, and the next one begins when an iteration does not
  leave the function.
\<close>

inductive roundBegins ::
  "CouncilOrchestrator \<Rightarrow> Env \<Rightarrow> string \<Rightarrow> nat \<Rightarrow> DebateState \<Rightarrow> World \<Rightarrow> bool" where
  first_round:
    "researchStep this env q (createInitialState this q) (emit (costEstimateEvent this) noWorld) = (w, st)
     \<Longrightarrow> roundBegins this env q 0 st w"
| next_round:
    "roundBegins this env q rnd st w \<Longrightarrow> rnd < this_maxRounds this \<Longrightarrow>
     debateIteration this env rnd st w = (w', st', None) \<Longrightarrow>
     roundBegins this env q (Suc rnd) st' w'"

text \<open>What \<open>runCouncilDebate\<close> makes of the result of the loop.\<close>

definition afterRounds ::
  "CouncilOrchestrator \<Rightarrow> Env \<Rightarrow> World \<times> DebateState \<times> Exit option
    \<Rightarrow> World \<times> DebateState \<times> (thrown + string)" where
  "afterRounds this env res =
     (case res of
        (w3, state2, Some (Returned answer)) \<Rightarrow> (w3, state2, Inr answer)
      | (w3, state2, Some (Aborted e)) \<Rightarrow> (w3, state2, Inl e)
      | (w3, state2, None) \<Rightarrow> synthesize this env state2 w3)"

text \<open>The \<open>error\<close> event that the route writes for a thrown value.\<close>

definition fatalEvent :: "Env \<Rightarrow> thrown \<Rightarrow> StreamEvent" where
  "fatalEvent env e = event error None (Some (getSafeErrorMessage env e))"

subsection \<open>The loop of a session\<close>

text \<open>
  The session of the route up to the end of the loop over the rounds: \<open>runCouncilDebate\<close>
  without the code after the loop. The result is the world and the state at the end of
  the loop, and the exit if an iteration has left the function.
\<close>

definition sessionLoop :: "Env \<Rightarrow> CouncilDebateRequest \<Rightarrow> World \<times> DebateState \<times> Exit option" where
  "sessionLoop env rq =
     (let this = orchestratorOf env rq;
          state0 = createInitialState this (question rq);
          w1 = emit (costEstimateEvent this) noWorld;
          (w2, state1) = researchStep this env (question rq) state0 w1
      in debateRounds this env 0 state1 w2)"

text \<open>The request that \<open>analyzeConsensus\<close> sends in a state.\<close>

definition analysisRequest :: "CouncilOrchestrator \<Rightarrow> DebateState \<Rightarrow> Request" where
  "analysisRequest this st =
     \<lparr>system_of = moderator_key, max_tokens = 1000, prompt = analysisPrompt this st, stream = False\<rparr>"

text \<open>
  The requests of the advisors are the streamed ones; those of the moderator (the analysis
  and the final answer) are not. Every request of the moderator in the list comes after at
  least \<open>need\<close> requests of advisors, \<open>k\<close> of them having come before the list.
\<close>

fun moderatorAfter :: "nat \<Rightarrow> nat \<Rightarrow> Request list \<Rightarrow> bool" where
  "moderatorAfter need k [] = True"
| "moderatorAfter need k (q # qs) =
     ((\<not> stream q \<longrightarrow> need \<le> k) \<and> moderatorAfter need (if stream q then Suc k else k) qs)"

section \<open>Concrete sessions\<close>

text \<open>
  A completion service that gives the replies of a list, call after call, and a search
  service that fails; no search key, production mode.
\<close>

definition scriptedEnv :: "Reply list \<Rightarrow> Env" where
  "scriptedEnv rs =
     \<lparr>llm = (\<lambda>n rq. if n < length rs then rs ! n else Replied []),
      search = (\<lambda>q. SearchFailed), TAVILY_API_KEY = None, development = False\<rparr>"


definition exampleRequest :: "DebateMode \<Rightarrow> AdvisorName list \<Rightarrow> CouncilDebateRequest" where
  "exampleRequest m as =
     \<lparr>question = ''Q'', mode = m, advisors = as, model = claude_sonnet_4_5,
      enableResearch = False, tavilyKey = None\<rparr>"

definition exampleOrchestrator :: "DebateMode \<Rightarrow> AdvisorName list \<Rightarrow> CouncilOrchestrator" where
  "exampleOrchestrator m as = orchestratorOf (scriptedEnv []) (exampleRequest m as)"

definition initialState :: "DebateMode \<Rightarrow> AdvisorName list \<Rightarrow> DebateState" where
  "initialState m as = createInitialState (exampleOrchestrator m as) ''Q''"

text \<open>A state in which every advisor has answered \<open>Yes\<close>.\<close>

definition answeredState :: "DebateMode \<Rightarrow> AdvisorName list \<Rightarrow> DebateState" where
  "answeredState m as = (initialState m as)\<lparr>currentRound := 2, agentResponses := (\<lambda>a. Some [''Yes''])\<rparr>"

text \<open>
  The state after a first round in which naval answers \<open>A\<close> and elon answers
  \<open>B\<close>.
\<close>

definition afterFirstRound :: DebateState where
  "afterFirstRound =
     (initialState standard [naval, elon])
       \<lparr>currentRound := 1,
        agentResponses := (agentResponses (initialState standard [naval, elon]))
                             (naval \<mapsto> [''A''], elon \<mapsto> [''B''])\<rparr>"

text \<open>
  Replies of the moderator: one without the field of the agreements, one with an agreement
  number above 100.
\<close>

definition replyWithoutAgreements :: string where
  "replyWithoutAgreements =
     ''CONSENSUS: NO'' @ NL @ ''AGREEMENT_LEVEL: 20'' @ NL @ ''DISAGREEMENTS:'' @ NL
     @ ''- pricing'' @ NL @ ''MAJORITY_VIEW: wait''"

definition replyAbove100 :: string where
  "replyAbove100 = ''CONSENSUS: YES'' @ NL @ ''AGREEMENT_LEVEL: 150''"

text \<open>
  The replies of a session of two rounds that ends in consensus, and of a round in which
  one advisor answers, one call times out and one response is empty.
\<close>

definition standardReplies :: "Reply list" where
  "standardReplies =
     [Replied [''A''], Replied [''B''], Replied [''C''],
      Replied [''A2''], Replied [''B2''], Replied [''C2''],
      Replied [''CONSENSUS: YES''], Replied [''F'']]"

definition failingReplies :: "Reply list" where
  "failingReplies = [Replied [''A''], Failed [''par''] (Some ''Request timeout''), Replied []]"

text \<open>
  A session in quick mode with three advisors, and one with five advisors in which the
  call of the analyzer fails.
\<close>

definition quickSession :: "World \<times> DebateState \<times> (thrown + string)" where
  "quickSession =
     runCouncilDebate (exampleOrchestrator quick [naval, elon, larry])
       (scriptedEnv [Replied [''A''], Replied [''B''], Replied [''C''],
                     Replied [''CONSENSUS: NO''], Replied [''F'']])
       ''Q'' noWorld"


text \<open>
  The replies of a round without any response: one call fails and one response is empty.
  The replies of a session in quick mode with three advisors and a moderator that finds
  no consensus.
\<close>

definition silentReplies :: "Reply list" where
  "silentReplies = [Failed [] (Some ''Overloaded''), Replied []]"

definition quickReplies :: "Reply list" where
  "quickReplies =
     [Replied [''A''], Replied [''B''], Replied [''C''], Replied [''CONSENSUS: NO''], Replied [''F'']]"

section \<open>Lemmas\<close>

lemmas example_defs = scriptedEnv_def exampleRequest_def exampleOrchestrator_def orchestratorOf_def
  constructor_def createInitialState_def noWorld_def answeredState_def initialState_def
  or_string_def truthy_def replyWithoutAgreements_def replyAbove100_def

lemmas round_defs = runDebateRound_def advisorTurn_def getAdvisorResponse_def advisorRequest_def
  chunkEvent_def call_llm_def emit_def emits_def event_def failed_event_def message_or_unknown_def

lemmas prompt_defs = advisorPrompt_def buildAdvisorContext_def contextEntry_def latestResponse_def
  userQuestionOf_def researchContext_def show_nat.simps digit_char_def

lemmas analysis_defs = analyzeConsensus_def latestResponses_def complete_text_def
  parseConsensus_def consensus_here_def agreement_here_def section_here_def
  rest_here_def is_digit_def is_space_def parseInt_def parseList_def trim_def upper_ascii_def

lemmas debate_defs = POST_stream_def runCouncilDebate_def researchStep_def shouldActivateResearch_def
  maxRoundsEvent_def pushFailure_def
  debateRounds.simps debateIteration_def synthesize_def generateFinalAnswer_def finalPrompt_def
  costEstimateEvent_def roundStartEvents_def consensusCheckEvents_def consensusReachedEvents_def
  getSafeErrorMessage_def

lemmas eval_defs = standardReplies_def example_defs debate_defs round_defs analysis_defs
  prompt_defs toLowerCase_def researchKeywords_def lower_char_def

lemmas seg_defs = roundStartEvents_def consensusCheckEvents_def consensusReachedEvents_def
  maxRoundsEvent_def costEstimateEvent_def event_def isRoundStart_def phaseStep_def
  failed_event_def turnOpening_def chunkEvent_def

subsection \<open>Strings\<close>

lemma startsWith_append: "startsWith s k \<Longrightarrow> startsWith (s @ ys) k"
  by (induction s k rule: startsWith.induct) auto

lemma startsWith_self: "startsWith (k @ ys) k"
  by (induction k) auto

lemma includes_str_right: "includes_str s k \<Longrightarrow> includes_str (s @ ys) k"
proof (induction s)
  case Nil
  then show ?case using startsWith_self[of "[]" ys] by (cases ys) auto
next
  case (Cons c s)
  then show ?case using startsWith_append[of "c # s" k ys] by auto
qed

lemma includes_str_left: "includes_str s k \<Longrightarrow> includes_str (xs @ s) k"
proof (induction xs)
  case Nil
  then show ?case by simp
next
  case (Cons x xs)
  then show ?case by simp
qed

lemma includes_str_self: "includes_str k k"
  using startsWith_self[of k "[]"] by (cases k) auto

lemma includes_str_middle: "includes_str (xs @ k @ ys) k"
  by (intro includes_str_left includes_str_right includes_str_self)

subsection \<open>One turn\<close>

lemma advisorTurn_Failed:
  assumes "turnReply this env a w st = Failed chunks e"
  shows "advisorTurn this env a (w, st, n) =
           (afterTurn this a w st chunks (failed_event a (provider_thrown e)), st, n)"
  using assms
  by (simp add: advisorTurn_def getAdvisorResponse_def call_llm_def turnReply_def afterTurn_def
      emit_def emits_def turnOpening_def)

lemma advisorTurn_empty:
  assumes "turnReply this env a w st = Replied chunks" "concat chunks = []"
  shows "advisorTurn this env a (w, st, n) =
           (afterTurn this a w st chunks (event agent_complete (Some a) None), st, n)"
  using assms
  by (simp add: advisorTurn_def getAdvisorResponse_def call_llm_def turnReply_def afterTurn_def
      emit_def emits_def turnOpening_def)

lemma advisorTurn_no_list:
  assumes "turnReply this env a w st = Replied chunks" "concat chunks \<noteq> []"
    "agentResponses st a = None"
  shows "advisorTurn this env a (w, st, n) =
           (afterTurn this a w st chunks (failed_event a pushFailure), st, n)"
  using assms
  by (simp add: advisorTurn_def getAdvisorResponse_def call_llm_def turnReply_def afterTurn_def
      emit_def emits_def turnOpening_def pushFailure_def)

lemma advisorTurn_success:
  assumes "turnReply this env a w st = Replied chunks" "concat chunks \<noteq> []"
    "agentResponses st a = Some rs"
  shows "advisorTurn this env a (w, st, n) =
           (afterTurn this a w st chunks (event agent_complete (Some a) None),
            st\<lparr>agentResponses := (agentResponses st)(a \<mapsto> rs @ [concat chunks])\<rparr>, n + 1)"
  using assms
  by (simp add: advisorTurn_def getAdvisorResponse_def call_llm_def turnReply_def afterTurn_def
      emit_def emits_def turnOpening_def)

lemma turnsOf_Cons:
  "turnsOf (a # as) k (rq # R) = (a, k, rq) # turnsOf as (Suc k) R"
proof -
  have "[k..<k + length (a # as)] = k # [Suc k..<Suc k + length as]"
    by (simp add: upt_conv_Cons del: upt_Suc)
  then show ?thesis
    by (simp add: turnsOf_def del: upt_Suc)
qed

lemma appendedBy_Cons:
  "appendedBy env a ((b, i, rq) # turns) =
     (if b = a then (case replyText (llm env i rq) of Some t \<Rightarrow> [t] | None \<Rightarrow> []) else [])
     @ appendedBy env a turns"
  by (simp add: appendedBy_def split: option.splits)

lemma successes_Cons:
  "successes env st ((b, i, rq) # turns) =
     (if replyText (llm env i rq) \<noteq> None \<and> agentResponses st b \<noteq> None then 1 else 0)
     + successes env st turns"
  by (simp add: successes_def)

lemma successes_dom:
  "(\<And>a. (agentResponses st1 a = None) = (agentResponses st a = None)) \<Longrightarrow>
   successes env st1 turns = successes env st turns"
  by (simp add: successes_def)

lemma successes_dom2:
  "agentResponses st1 = agentResponses st \<Longrightarrow> successes env st1 turns = successes env st turns"
  by (simp add: successes_def)

text \<open>One turn, whatever the reply.\<close>

lemma advisorTurn_step:
  obtains final st1 n1 chunks where
    "advisorTurn this env a (w, st, n) = (afterTurn this a w st chunks final, st1, n1)"
    "turnClosing a final"
    "st1 = st\<lparr>agentResponses := agentResponses st1\<rparr>"
    "\<And>b. agentResponses st1 b =
        map_option (\<lambda>rs. rs @ (if b = a then (case replyText (turnReply this env a w st) of Some t \<Rightarrow> [t] | None \<Rightarrow> []) else []))
          (agentResponses st b)"
    "n1 = n + (if replyText (turnReply this env a w st) \<noteq> None \<and> agentResponses st a \<noteq> None then 1 else 0)"
proof (cases "turnReply this env a w st")
  case (Failed chunks e)
  show ?thesis
    by (rule that[OF advisorTurn_Failed[OF Failed]])
       (auto simp: turnClosing_def Failed option.map_ident split: option.splits)
next
  case (Replied chunks)
  show ?thesis
  proof (cases "concat chunks = []")
    case True
    show ?thesis
      by (rule that[OF advisorTurn_empty[OF Replied True]])
         (auto simp: turnClosing_def Replied True option.map_ident split: option.splits)
  next
    case False
    show ?thesis
    proof (cases "agentResponses st a")
      case None
      show ?thesis
        using False
        by (intro that[OF advisorTurn_no_list[OF Replied False None]])
           (auto simp: turnClosing_def Replied False None option.map_ident split: option.splits)
    next
      case (Some rs)
      show ?thesis
        using False
        by (intro that[OF advisorTurn_success[OF Replied False Some]])
           (auto simp: turnClosing_def Replied False Some option.map_ident split: option.splits)
    qed
  qed
qed

lemma advisorTurn_ex:
  "\<exists>final st1 n1 chunks.
     advisorTurn this env a (w, st, n) = (afterTurn this a w st chunks final, st1, n1)
     \<and> turnClosing a final
     \<and> st1 = st\<lparr>agentResponses := agentResponses st1\<rparr>
     \<and> (\<forall>b. agentResponses st1 b =
        map_option (\<lambda>rs. rs @ (if b = a then (case replyText (turnReply this env a w st) of Some t \<Rightarrow> [t] | None \<Rightarrow> []) else []))
          (agentResponses st b))
     \<and> n1 = n + (if replyText (turnReply this env a w st) \<noteq> None \<and> agentResponses st a \<noteq> None then 1 else 0)"
  by (rule advisorTurn_step[of this env a w st n]) blast

lemma frame_trans:
  assumes "st2 = st1\<lparr>agentResponses := r2\<rparr>" "st1 = st\<lparr>agentResponses := r1\<rparr>"
  shows "st2 = st\<lparr>agentResponses := r2\<rparr>"
  by (simp add: assms(1)) (subst assms(2), simp)

subsection \<open>One round\<close>

lemma fold_turns:
  assumes "fold (advisorTurn this env) as (w, st, n) = (w', st', n')"
  shows "\<exists>E R. events w' = events w @ E \<and> roundTrace as E
           \<and> calls w' = calls w @ R \<and> length R = length as
           \<and> (\<forall>q\<in>set R. stream q)
           \<and> st' = st\<lparr>agentResponses := agentResponses st'\<rparr>
           \<and> (\<forall>b. agentResponses st' b =
                  map_option (\<lambda>rs. rs @ appendedBy env b (turnsOf as (length (calls w)) R))
                    (agentResponses st b))
           \<and> n' = n + successes env st (turnsOf as (length (calls w)) R)"
  using assms
proof (induction as arbitrary: w st n)
  case Nil
  then show ?case
    by (auto simp: roundTrace_Nil turnsOf_def appendedBy_def successes_def
        option.map_ident)
next
  case (Cons a as)
  obtain final st1 n1 chunks where
    step: "advisorTurn this env a (w, st, n) = (afterTurn this a w st chunks final, st1, n1)"
    and closing: "turnClosing a final"
    and frame1: "st1 = st\<lparr>agentResponses := agentResponses st1\<rparr>"
    and resp1: "\<And>b. agentResponses st1 b =
        map_option (\<lambda>rs. rs @ (if b = a then (case replyText (turnReply this env a w st) of Some t \<Rightarrow> [t] | None \<Rightarrow> []) else []))
          (agentResponses st b)"
    and n1: "n1 = n + (if replyText (turnReply this env a w st) \<noteq> None \<and> agentResponses st a \<noteq> None then 1 else 0)"
    using advisorTurn_ex[of this env a w st n] by blast
  let ?w1 = "afterTurn this a w st chunks final"
  let ?rq = "advisorRequest this st a"
  let ?k = "length (calls w)"
  from Cons.prems step have "fold (advisorTurn this env) as (?w1, st1, n1) = (w', st', n')"
    by simp
  from Cons.IH[OF this] obtain E R where
    ev: "events w' = events ?w1 @ E" and tr: "roundTrace as E"
    and ca: "calls w' = calls ?w1 @ R" and len: "length R = length as"
    and str: "\<forall>q\<in>set R. stream q"
    and frame2: "st' = st1\<lparr>agentResponses := agentResponses st'\<rparr>"
    and resp2: "\<And>b. agentResponses st' b =
                  map_option (\<lambda>rs. rs @ appendedBy env b (turnsOf as (length (calls ?w1)) R))
                    (agentResponses st1 b)"
    and n2: "n' = n1 + successes env st1 (turnsOf as (length (calls ?w1)) R)"
    by blast
  have k1: "length (calls ?w1) = Suc ?k" by (simp add: afterTurn_def)
  have reply: "turnReply this env a w st = llm env ?k ?rq" by (simp add: turnReply_def)
  have dom: "\<And>b. (agentResponses st1 b = None) = (agentResponses st b = None)"
    by (simp add: resp1)
  have "events w' = events w @ (turnOpening a @ map (chunkEvent a) chunks @ final # E)"
    by (simp add: ev afterTurn_def)
  moreover have "roundTrace (a # as) (turnOpening a @ map (chunkEvent a) chunks @ final # E)"
    by (rule roundTrace_Cons[OF closing tr])
  moreover have "calls w' = calls w @ (?rq # R)" by (simp add: ca afterTurn_def)
  moreover have "length (?rq # R) = length (a # as)" by (simp add: len)
  moreover have "\<forall>q\<in>set (?rq # R). stream q" by (simp add: str advisorRequest_def)
  moreover have "st' = st\<lparr>agentResponses := agentResponses st'\<rparr>"
    by (rule frame_trans[OF frame2 frame1])
  moreover have "\<forall>b. agentResponses st' b =
      map_option (\<lambda>rs. rs @ appendedBy env b (turnsOf (a # as) ?k (?rq # R))) (agentResponses st b)"
    by (simp add: resp2 resp1 k1 turnsOf_Cons appendedBy_Cons reply option.map_comp comp_def)
  moreover have "n' = n + successes env st (turnsOf (a # as) ?k (?rq # R))"
    by (simp add: n2 n1 k1 turnsOf_Cons successes_Cons reply successes_dom[OF dom])
  ultimately show ?case by blast
qed

lemma runDebateRound_trace:
  assumes "runDebateRound this env st w = (w', shared, r)"
  shows "\<exists>E R. events w' = events w @ E \<and> roundTrace (this_selectedAdvisors this) E
           \<and> calls w' = calls w @ R \<and> length R = length (this_selectedAdvisors this)
           \<and> (\<forall>q\<in>set R. stream q)
           \<and> (\<forall>b. shared b =
                  map_option (\<lambda>rs. rs @ appendedBy env b
                                 (turnsOf (this_selectedAdvisors this) (length (calls w)) R))
                    (agentResponses st b))
           \<and> r = (if successes env st (turnsOf (this_selectedAdvisors this) (length (calls w)) R) < 2
                  then Inl (InsufficientResponses
                              (successes env st (turnsOf (this_selectedAdvisors this) (length (calls w)) R)))
                  else Inr (st\<lparr>currentRound := currentRound st + 1, agentResponses := shared\<rparr>))"
proof -
  let ?st0 = "st\<lparr>currentRound := currentRound st + 1\<rparr>"
  obtain w1 st1 n1 where
    f: "fold (advisorTurn this env) (this_selectedAdvisors this) (w, ?st0, 0) = (w1, st1, n1)"
    by (metis prod_cases3)
  from assms f have res: "w' = w1" "shared = agentResponses st1"
    "r = (if n1 < 2 then Inl (InsufficientResponses n1) else Inr st1)"
    by (simp_all add: runDebateRound_def)
  from fold_turns[OF f] obtain E R where
    ev: "events w1 = events w @ E" and tr: "roundTrace (this_selectedAdvisors this) E"
    and ca: "calls w1 = calls w @ R" and len: "length R = length (this_selectedAdvisors this)"
    and str: "\<forall>q\<in>set R. stream q"
    and frame: "st1 = ?st0\<lparr>agentResponses := agentResponses st1\<rparr>"
    and resp: "\<And>b. agentResponses st1 b =
                  map_option (\<lambda>rs. rs @ appendedBy env b
                                 (turnsOf (this_selectedAdvisors this) (length (calls w)) R))
                    (agentResponses ?st0 b)"
    and n: "n1 = 0 + successes env ?st0 (turnsOf (this_selectedAdvisors this) (length (calls w)) R)"
    by blast
  have n': "n1 = successes env st (turnsOf (this_selectedAdvisors this) (length (calls w)) R)"
    using successes_dom2[of ?st0 st env] by (simp add: n)
  have st1: "st1 = st\<lparr>currentRound := currentRound st + 1, agentResponses := shared\<rparr>"
    by (subst frame) (simp add: res)
  have "events w' = events w @ E" by (simp add: res ev)
  moreover have "calls w' = calls w @ R" by (simp add: res ca)
  moreover have "\<forall>b. shared b =
                  map_option (\<lambda>rs. rs @ appendedBy env b
                                 (turnsOf (this_selectedAdvisors this) (length (calls w)) R))
                    (agentResponses st b)"
    by (simp add: res(2) resp)
  moreover have "r = (if successes env st (turnsOf (this_selectedAdvisors this) (length (calls w)) R) < 2
                  then Inl (InsufficientResponses
                              (successes env st (turnsOf (this_selectedAdvisors this) (length (calls w)) R)))
                  else Inr (st\<lparr>currentRound := currentRound st + 1, agentResponses := shared\<rparr>))"
    using res(3) st1 by (simp only: n' [symmetric])
  ultimately show ?thesis using tr len str by blast
qed

lemma length_appendedBy:
  "length (appendedBy env a (zip as rest)) \<le> count_list as a"
proof (induction as arbitrary: rest)
  case Nil
  show ?case by (simp add: appendedBy_def)
next
  case (Cons b as)
  show ?case
  proof (cases rest)
    case Nil
    then show ?thesis by (simp add: appendedBy_def)
  next
    case (Cons r rest')
    obtain i q where r: "r = (i, q)" by (cases r)
    show ?thesis
      using Cons.IH[of rest'] by (simp add: Cons r appendedBy_Cons split: option.splits)
  qed
qed

lemma count_list_distinct: "distinct as \<Longrightarrow> count_list as a \<le> 1"
  by (induction as) (auto simp: count_list_0_iff)




lemma length_latestResponses:
  "length (latestResponses this state) = length (filter (hasResponse state) (this_selectedAdvisors this))"
proof -
  have "length (filter (\<lambda>r. snd r \<noteq> []) (map (\<lambda>name. (PERSONAS_name (advisor_key name),
                      case latestResponse state name of Some r \<Rightarrow> r | None \<Rightarrow> [])) as))
        = length (filter (hasResponse state) as)" for as
    by (induction as) (auto simp: hasResponse_def latestResponse_def split: option.splits)
  then show ?thesis by (simp add: latestResponses_def)
qed


subsection \<open>The analyzer and the final answer\<close>

lemma events_complete_text: "events (fst (complete_text env rq w)) = events w"
  by (simp add: complete_text_def call_llm_def split: Reply.splits)

lemma fst_analyzeConsensus:
  "fst (analyzeConsensus this env st w) =
     (if length (latestResponses this st) < 3 then w
      else fst (complete_text env \<lparr>system_of = moderator_key, max_tokens = 1000,
                 prompt = analysisPrompt this st, stream = False\<rparr> w))"
  by (simp add: analyzeConsensus_def split: prod.splits sum.splits)

lemma events_analyzeConsensus: "events (fst (analyzeConsensus this env st w)) = events w"
  by (simp add: fst_analyzeConsensus events_complete_text)

lemma events_generateFinalAnswer: "events (fst (generateFinalAnswer this env st c w)) = events w"
  by (simp add: generateFinalAnswer_def events_complete_text)

lemma complete_text_Replied:
  assumes "llm env (length (calls w)) q = Replied chunks"
  shows "complete_text env q w = (w\<lparr>calls := calls w @ [q]\<rparr>, Inr (concat chunks))"
  using assms by (simp add: complete_text_def call_llm_def)

text \<open>
  Whatever the moderator replies, the reply is parsed: the call is the only thing that can
  throw.
\<close>

lemma analyzeConsensus_parses_any_reply:
  assumes "llm env (length (calls w))
             \<lparr>system_of = moderator_key, max_tokens = 1000,
              prompt = analysisPrompt this st, stream = False\<rparr> = Replied chunks"
    and "\<not> length (latestResponses this st) < 3"
  shows "snd (analyzeConsensus this env st w) = Inr (parseConsensus (concat chunks))"
  using assms by (simp add: analyzeConsensus_def complete_text_Replied)

text \<open>
  A reply without the label of the consensus flag gives no consensus, and no reply gives a
  negative agreement level.
\<close>

lemma regex_search_consensus:
  "regex_search consensus_here s = Some g \<Longrightarrow> includes_str (map upper_ascii s) ''CONSENSUS:''"
proof (induction s)
  case Nil
  then show ?case by (simp add: consensus_here_def)
next
  case (Cons c s)
  show ?case
  proof (cases "consensus_here (c # s)")
    case None
    with Cons show ?thesis by simp
  next
    case (Some h)
    then have "startsWith (map upper_ascii (c # s)) ''CONSENSUS:''"
      by (simp add: consensus_here_def split: if_splits)
    then show ?thesis by simp
  qed
qed

lemma reply_without_consensus_label:
  "\<not> includes_str (map upper_ascii reply) ''CONSENSUS:'' \<Longrightarrow>
     \<not> ca_consensusReached (parseConsensus reply)"
  using regex_search_consensus[of reply]
  by (auto simp: parseConsensus_def Let_def split: option.splits)

lemma agreementLevel_nonneg: "0 \<le> agreementLevel (parseConsensus reply)"
  by (simp add: parseConsensus_def Let_def split: option.splits)

subsection \<open>The prompt of a later round\<close>

text \<open>
  When \<open>currentRound\<close> is not 0 the prompt of an advisor contains the latest
  response of every other selected advisor that has one. \<open>runDebateRound\<close>
  only ever asks for a prompt in such a state.
\<close>

lemma context_contains_entry:
  assumes "b \<in> set as"
  shows "\<exists>pre post. concat (map (contextEntry st) as) = pre @ contextEntry st b @ post"
proof -
  from assms obtain xs ys where "as = xs @ b # ys" by (auto simp: in_set_conv_decomp)
  then have "concat (map (contextEntry st) as)
      = concat (map (contextEntry st) xs) @ contextEntry st b @ concat (map (contextEntry st) ys)"
    by simp
  then show ?thesis by blast
qed

lemma later_prompt_contains_latest:
  assumes "currentRound st \<noteq> 0" "b \<in> set (this_selectedAdvisors this)" "b \<noteq> a"
    "latestResponse st b = Some r"
  shows "includes_str (advisorPrompt this st a) r"
proof -
  from assms(2,3) have "b \<in> set (filter (\<lambda>n. n \<noteq> a) (this_selectedAdvisors this))" by simp
  from context_contains_entry[OF this, of st] obtain pre post where
    "buildAdvisorContext this st a = pre @ contextEntry st b @ post"
    by (auto simp: buildAdvisorContext_def)
  moreover have "contextEntry st b = (''**'' @ PERSONAS_name (advisor_key b) @ ''**: '') @ r @ (NL @ NL)"
    by (simp add: contextEntry_def assms(4))
  ultimately obtain pre' post' where ctx: "buildAdvisorContext this st a = pre' @ r @ post'"
    by (metis append.assoc)
  have "\<exists>p q. advisorPrompt this st a = p @ buildAdvisorContext this st a @ q"
    using assms(1) by (simp only: advisorPrompt_def if_False) (metis append.assoc)
  then obtain p q where "advisorPrompt this st a = (p @ pre') @ r @ (post' @ q)"
    by (auto simp: ctx)
  then show ?thesis
    by (simp only: includes_str_middle)
qed

subsection \<open>The events of an iteration, of the loop and of a session\<close>

lemma debateIteration_trace:
  assumes "debateIteration this env rnd st w = (w', st', x)"
  shows "\<exists>E T. roundTrace (this_selectedAdvisors this) E
           \<and> events w' = events w @ roundStartEvents this rnd @ E @ T
           \<and> tailOK rnd x T \<and> sameSession st st' \<and> finalAnswer st' = answerOf x (finalAnswer st)"
proof -
  let ?w0 = "emits (roundStartEvents this rnd) w"
  obtain w1 shared r where rd: "runDebateRound this env st ?w0 = (w1, shared, r)"
    by (metis prod_cases3)
  from runDebateRound_trace[OF rd] obtain E R where
    ev1: "events w1 = events ?w0 @ E" and tr: "roundTrace (this_selectedAdvisors this) E"
    and r: "r = (if successes env st (turnsOf (this_selectedAdvisors this) (length (calls ?w0)) R) < 2
                  then Inl (InsufficientResponses
                              (successes env st (turnsOf (this_selectedAdvisors this) (length (calls ?w0)) R)))
                  else Inr (st\<lparr>currentRound := currentRound st + 1, agentResponses := shared\<rparr>))"
    by blast
  have ev1': "events w1 = events w @ roundStartEvents this rnd @ E"
    by (simp add: ev1 emits_def)
  show ?thesis
  proof (cases r)
    case (Inl e)
    with assms rd have "w' = w1" "st' = st\<lparr>agentResponses := shared\<rparr>" "x = Some (Aborted e)"
      by (simp_all add: debateIteration_def)
    then show ?thesis
      using tr ev1' by (intro exI[of _ E] exI[of _ "[]"]) (simp add: tailOK_def sameSession_def answerOf_def)
  next
    case (Inr st1)
    with r have st1: "st1 = st\<lparr>currentRound := currentRound st + 1, agentResponses := shared\<rparr>"
      by (simp split: if_splits)
    have same1: "sameSession st st1" "finalAnswer st1 = finalAnswer st"
      by (simp_all add: st1 sameSession_def)
    show ?thesis
    proof (cases "rnd \<ge> 1")
      case False
      with assms rd Inr have "w' = w1" "st' = st1" "x = None"
        by (simp_all add: debateIteration_def)
      then show ?thesis
        using tr ev1' same1 False
        by (intro exI[of _ E] exI[of _ "[]"]) (simp add: tailOK_def answerOf_def)
    next
      case True
      let ?w1c = "emits consensusCheckEvents w1"
      obtain w2 a where an: "analyzeConsensus this env st1 ?w1c = (w2, a)"
        by (metis prod.exhaust)
      have ev2: "events w2 = events w @ roundStartEvents this rnd @ E @ consensusCheckEvents"
        using events_analyzeConsensus[of this env st1 ?w1c] an by (simp add: ev1' emits_def)
      show ?thesis
      proof (cases a)
        case (Inl e)
        with assms rd Inr True an have "w' = w2" "st' = st1" "x = Some (Aborted e)"
          by (simp_all add: debateIteration_def)
        then show ?thesis
          using tr ev2 same1 True
          by (intro exI[of _ E] exI[of _ consensusCheckEvents]) (simp add: tailOK_def answerOf_def)
      next
        case (Inr c)
        note c = Inr
        show ?thesis
        proof (cases "ca_consensusReached c")
          case False
          with assms rd \<open>r = Inr st1\<close> True an c have "w' = w2" "st' = st1" "x = None"
            by (simp_all add: debateIteration_def)
          then show ?thesis
            using tr ev2 same1 True
            by (intro exI[of _ E] exI[of _ consensusCheckEvents]) (simp add: tailOK_def answerOf_def)
        next
          case reached: True
          let ?w2r = "emits consensusReachedEvents w2"
          obtain w3 f where fa: "generateFinalAnswer this env st1 c ?w2r = (w3, f)"
            by (metis prod.exhaust)
          have ev3: "events w3 = events w @ roundStartEvents this rnd @ E
                        @ consensusCheckEvents @ consensusReachedEvents"
            using events_generateFinalAnswer[of this env st1 c ?w2r] fa by (simp add: ev2 emits_def)
          show ?thesis
          proof (cases f)
            case (Inl e)
            with assms rd \<open>r = Inr st1\<close> True an c reached fa
            have "w' = w3" "st' = st1" "x = Some (Aborted e)"
              by (simp_all add: debateIteration_def)
            then show ?thesis
              using tr ev3 same1 True
              by (intro exI[of _ E] exI[of _ "consensusCheckEvents @ consensusReachedEvents"])
                 (simp add: tailOK_def answerOf_def)
          next
            case (Inr answer)
            with assms rd \<open>r = Inr st1\<close> True an c reached fa
            have "w' = emit (event final_answer None (Some answer)) w3"
              "st' = st1\<lparr>consensusReached := True, finalAnswer := Some answer\<rparr>"
              "x = Some (Returned answer)"
              by (simp_all add: debateIteration_def)
            then show ?thesis
              using tr ev3 same1 True
              by (intro exI[of _ E] exI[of _ "consensusCheckEvents @ consensusReachedEvents
                                                @ [event final_answer None (Some answer)]"])
                 (simp add: tailOK_def answerOf_def emit_def sameSession_def)
          qed
        qed
      qed
    qed
  qed
qed

lemma sameSession_refl: "sameSession st st"
  by (simp add: sameSession_def)

lemma sameSession_trans: "sameSession st st1 \<Longrightarrow> sameSession st1 st2 \<Longrightarrow> sameSession st st2"
  by (simp add: sameSession_def)

lemma debateRounds_trace:
  "debateRounds this env rnd st w = (w', st', x) \<Longrightarrow>
     \<exists>L. events w' = events w @ L \<and> loopTrace this rnd x L \<and> sameSession st st'
         \<and> finalAnswer st' = answerOf x (finalAnswer st)"
proof (induction this env rnd st w arbitrary: w' st' x rule: debateRounds.induct)
  case (1 this env rnd state w)
  show ?case
  proof (cases "rnd < this_maxRounds this")
    case False
    with "1.prems" have "w' = w" "st' = state" "x = None"
      by (simp_all add: debateRounds.simps[of this env rnd])
    then show ?thesis
      using False by (auto intro: loop_done simp: sameSession_def answerOf_def)
  next
    case True
    obtain w1 st1 x1 where it: "debateIteration this env rnd state w = (w1, st1, x1)"
      by (metis prod_cases3)
    from debateIteration_trace[OF it] obtain E T where
      tr: "roundTrace (this_selectedAdvisors this) E"
      and ev1: "events w1 = events w @ roundStartEvents this rnd @ E @ T"
      and tail: "tailOK rnd x1 T" and same1: "sameSession state st1"
      and fa1: "finalAnswer st1 = answerOf x1 (finalAnswer state)"
      by blast
    show ?thesis
    proof (cases x1)
      case None
      with True it "1.prems" have rec: "debateRounds this env (rnd + 1) st1 w1 = (w', st', x)"
        by (simp add: debateRounds.simps[of this env rnd])
      from "1.IH"[OF True it[symmetric] refl None rec] obtain L where
        ev2: "events w' = events w1 @ L" and lt: "loopTrace this (rnd + 1) x L"
        and same2: "sameSession st1 st'" and fa2: "finalAnswer st' = answerOf x (finalAnswer st1)"
        by blast
      have "loopTrace this rnd x (roundStartEvents this rnd @ E @ T @ L)"
        using loop_next[OF True tr _ _] tail None lt by simp
      moreover have "events w' = events w @ roundStartEvents this rnd @ E @ T @ L"
        by (simp add: ev2 ev1)
      moreover have "finalAnswer st' = answerOf x (finalAnswer state)"
        using fa2 fa1 None by (simp add: answerOf_def)
      ultimately show ?thesis
        using sameSession_trans[OF same1 same2] by blast
    next
      case (Some exit)
      with True it "1.prems" have "w' = w1" "st' = st1" "x = Some exit"
        by (simp_all add: debateRounds.simps[of this env rnd])
      moreover have "loopTrace this rnd (Some exit) (roundStartEvents this rnd @ E @ T)"
        using loop_exit[OF True tr] tail Some by simp
      ultimately show ?thesis
        using ev1 same1 fa1 Some by blast
    qed
  qed
qed

lemma researchStep_trace:
  assumes "researchStep this env q st w = (w', st')"
  shows "\<exists>Rs. events w' = events w @ Rs \<and> researchOnly Rs
           \<and> maxRounds st' = maxRounds st \<and> finalAnswer st' = finalAnswer st
           \<and> messages st' = messages st \<and> currentRound st' = currentRound st
           \<and> agentResponses st' = agentResponses st"
  using assms
  by (auto simp: researchStep_def performResearch_def emit_def event_def researchOnly_def Let_def
      split: if_splits SearchReply.splits option.splits)

lemma researchStep_frame:
  "snd (researchStep this env q st w) = st\<lparr>researchResults := researchResults (snd (researchStep this env q st w))\<rparr>"
  by (auto simp: researchStep_def Let_def split: prod.splits)

lemma calls_researchStep: "calls (fst (researchStep this env q st w)) = calls w"
  by (auto simp: researchStep_def performResearch_def emit_def Let_def
      split: SearchReply.splits option.splits prod.splits)

lemma synthesize_trace:
  assumes "synthesize this env st w = (w', st', r)"
  shows "\<exists>S. events w' = events w @ S \<and> synTail None r S \<and> sameSession st st'
           \<and> finalAnswer st' = (case r of Inr answer \<Rightarrow> Some answer | Inl e \<Rightarrow> finalAnswer st)"
proof -
  let ?w1 = "emit maxRoundsEvent w"
  obtain w2 a where an: "analyzeConsensus this env st ?w1 = (w2, a)"
    by (metis prod.exhaust)
  have ev2: "events w2 = events w @ [maxRoundsEvent]"
    using events_analyzeConsensus[of this env st ?w1] an by (simp add: emit_def)
  show ?thesis
  proof (cases a)
    case (Inl e)
    with assms an have "w' = w2" "st' = st" "r = Inl e"
      by (simp_all add: synthesize_def maxRoundsEvent_def)
    then show ?thesis
      using ev2 by (simp add: synTail_def sameSession_def)
  next
    case (Inr c)
    obtain w3 f where fa: "generateFinalAnswer this env st c w2 = (w3, f)"
      by (metis prod.exhaust)
    have ev3: "events w3 = events w @ [maxRoundsEvent]"
      using events_generateFinalAnswer[of this env st c w2] fa by (simp add: ev2)
    show ?thesis
    proof (cases f)
      case (Inl e)
      with assms an Inr fa have "w' = w3" "st' = st" "r = Inl e"
        by (simp_all add: synthesize_def maxRoundsEvent_def)
      then show ?thesis
        using ev3 by (simp add: synTail_def sameSession_def)
    next
      case answer: (Inr answer)
      with assms an Inr fa have "w' = emit (event final_answer None (Some answer)) w3"
        "st' = st\<lparr>finalAnswer := Some answer\<rparr>" "r = Inr answer"
        by (simp_all add: synthesize_def maxRoundsEvent_def)
      then show ?thesis
        using ev3 by (simp add: synTail_def sameSession_def emit_def)
    qed
  qed
qed

lemma runCouncilDebate_trace:
  assumes "runCouncilDebate this env q w = (w', st', r)"
  shows "\<exists>Rs L S x. events w' = events w @ costEstimateEvent this # Rs @ L @ S
           \<and> researchOnly Rs \<and> loopTrace this 0 x L \<and> synTail x r S
           \<and> maxRounds st' = this_maxRounds this
           \<and> finalAnswer st' = (case r of Inr answer \<Rightarrow> Some answer | Inl e \<Rightarrow> None)"
proof -
  let ?st0 = "createInitialState this q"
  let ?w1 = "emit (costEstimateEvent this) w"
  obtain w2 st1 where rs: "researchStep this env q ?st0 ?w1 = (w2, st1)"
    by (metis prod.exhaust)
  from researchStep_trace[OF rs] obtain Rs where
    ev2: "events w2 = events ?w1 @ Rs" and ro: "researchOnly Rs"
    and mr1: "maxRounds st1 = maxRounds ?st0" and fa1: "finalAnswer st1 = finalAnswer ?st0"
    by blast
  obtain w3 st2 x where lp: "debateRounds this env 0 st1 w2 = (w3, st2, x)"
    by (metis prod_cases3)
  from debateRounds_trace[OF lp] obtain L where
    ev3: "events w3 = events w2 @ L" and lt: "loopTrace this 0 x L"
    and same2: "sameSession st1 st2" and fa2: "finalAnswer st2 = answerOf x (finalAnswer st1)"
    by blast
  have ev3': "events w3 = events w @ costEstimateEvent this # Rs @ L"
    by (simp add: ev3 ev2 emit_def)
  have mr2: "maxRounds st2 = this_maxRounds this"
    using same2 mr1 by (simp add: sameSession_def createInitialState_def)
  have fa0: "finalAnswer st1 = None"
    by (simp add: fa1 createInitialState_def)
  show ?thesis
  proof (cases x)
    case None
    with assms rs lp have sy: "synthesize this env st2 w3 = (w', st', r)"
      by (simp add: runCouncilDebate_def)
    from synthesize_trace[OF sy] obtain S where
      "events w' = events w3 @ S" "synTail None r S" "sameSession st2 st'"
      "finalAnswer st' = (case r of Inr answer \<Rightarrow> Some answer | Inl e \<Rightarrow> finalAnswer st2)"
      by blast
    moreover have "finalAnswer st2 = None"
      using fa2 fa0 None by (simp add: answerOf_def)
    ultimately show ?thesis
      using ro lt mr2 ev3' None
      by (intro exI[of _ Rs] exI[of _ L] exI[of _ S] exI[of _ x])
         (auto simp: sameSession_def split: sum.splits)
  next
    case (Some exit)
    show ?thesis
    proof (cases exit)
      case (Returned answer)
      with Some assms rs lp have "w' = w3" "st' = st2" "r = Inr answer"
        by (simp_all add: runCouncilDebate_def)
      then show ?thesis
        using ro lt mr2 ev3' Some Returned fa2
        by (intro exI[of _ Rs] exI[of _ L] exI[of _ "[]"] exI[of _ x])
           (simp add: synTail_def answerOf_def)
    next
      case (Aborted e)
      with Some assms rs lp have "w' = w3" "st' = st2" "r = Inl e"
        by (simp_all add: runCouncilDebate_def)
      then show ?thesis
        using ro lt mr2 ev3' Some Aborted fa2 fa0
        by (intro exI[of _ Rs] exI[of _ L] exI[of _ "[]"] exI[of _ x])
           (simp add: synTail_def answerOf_def)
    qed
  qed
qed

lemma roundBegins_run:
  "roundBegins this env q rnd st w \<Longrightarrow>
     runCouncilDebate this env q noWorld = afterRounds this env (debateRounds this env rnd st w)"
proof (induction rule: roundBegins.induct)
  case (first_round this env q w st)
  then show ?case
    by (simp add: runCouncilDebate_def afterRounds_def)
next
  case (next_round this env q rnd st w w' st')
  have "debateRounds this env rnd st w = debateRounds this env (Suc rnd) st' w'"
    using next_round.hyps(2,3) by (simp add: debateRounds.simps[of this env rnd])
  then show ?case
    using next_round.IH by simp
qed

subsection \<open>Properties of the events\<close>

lemma phaseRun_append:
  "phaseRun p (xs @ ys) = (case phaseRun p xs of Some q \<Rightarrow> phaseRun q ys | None \<Rightarrow> None)"
  by (induction xs arbitrary: p) (auto split: option.splits)

lemma phaseRun_chunks:
  "phaseRun (Speaking a) (map (chunkEvent a) chunks @ es) = phaseRun (Speaking a) es"
  by (induction chunks) (auto simp: chunkEvent_def event_def phaseStep_def)

lemma phaseStep_closing:
  "turnClosing a final \<Longrightarrow> phaseStep (Speaking a) final = Some Idle"
  by (auto simp: turnClosing_def seg_defs)

lemma phaseRun_opening:
  "phaseRun Idle (turnOpening a @ es) = phaseRun (Speaking a) es"
  by (simp add: seg_defs)

lemma roundTrace_phase: "roundTrace as E \<Longrightarrow> phaseRun Idle E = Some Idle"
proof (induction rule: roundTrace.induct)
  case roundTrace_Nil
  show ?case by simp
next
  case (roundTrace_Cons a final as E chunks)
  then show ?case
    by (simp add: phaseRun_opening phaseRun_chunks phaseStep_closing)
qed

lemma turnEvent_closing: "turnClosing a final \<Longrightarrow> turnEvent final"
  by (auto simp: turnClosing_def turnEvent_def event_def)

lemma roundTrace_turnEvents: "roundTrace as E \<Longrightarrow> e \<in> set E \<Longrightarrow> turnEvent e"
proof (induction rule: roundTrace.induct)
  case roundTrace_Nil
  then show ?case by simp
next
  case (roundTrace_Cons a final as E chunks)
  then show ?case
    using turnEvent_closing[of a final]
    by (auto simp: turnEvent_def turnOpening_def chunkEvent_def event_def)
qed

lemma roundTrace_starts:
  "roundTrace as E \<Longrightarrow> map agent (filter (\<lambda>e. type e = agent_start) E) = map Some as"
proof (induction rule: roundTrace.induct)
  case roundTrace_Nil
  show ?case by simp
next
  case (roundTrace_Cons a final as E chunks)
  have "filter (\<lambda>e. type e = agent_start) (map (chunkEvent a) chunks) = []"
    by (induction chunks) (simp_all add: chunkEvent_def event_def)
  moreover have "type final \<noteq> agent_start"
    using roundTrace_Cons.hyps(1) by (auto simp: turnClosing_def event_def failed_event_def)
  ultimately show ?case
    using roundTrace_Cons.IH by (simp add: turnOpening_def event_def)
qed

lemma turnEvent_facts:
  assumes "turnEvent e"
  shows "\<not> isRoundStart e" "type e \<noteq> consensus_check" "type e \<noteq> final_answer"
    "type e = error \<Longrightarrow> \<exists>a t. e = failed_event a t"
  using assms by (auto simp: turnEvent_def isRoundStart_def failed_event_def event_def)

lemma checksOK_append:
  "checksOK k (xs @ ys) = (checksOK k xs \<and> checksOK (k + roundsStarted xs) ys)"
  by (induction xs arbitrary: k) (auto simp: roundsStarted_def)

lemma roundsStarted_append: "roundsStarted (xs @ ys) = roundsStarted xs + roundsStarted ys"
  by (simp add: roundsStarted_def)

lemma finalAnswers_append: "finalAnswers (xs @ ys) = finalAnswers xs + finalAnswers ys"
  by (simp add: finalAnswers_def)

lemma turnEvents_quiet:
  assumes "\<And>e. e \<in> set E \<Longrightarrow> turnEvent e"
  shows "roundsStarted E = 0" "checksOK k E" "finalAnswers E = 0"
proof -
  show "roundsStarted E = 0"
    using assms turnEvent_facts(1) by (auto simp: roundsStarted_def filter_empty_conv)
  show "finalAnswers E = 0"
    using assms turnEvent_facts(3) by (auto simp: finalAnswers_def filter_empty_conv)
  show "checksOK k E"
    using assms
  proof (induction E)
    case Nil
    show ?case by simp
  next
    case (Cons e E)
    then show ?case
      using turnEvent_facts(1,2)[of e] by simp
  qed
qed

lemma roundStart_facts:
  "roundsStarted (roundStartEvents this rnd) = 1" "checksOK k (roundStartEvents this rnd)"
  "finalAnswers (roundStartEvents this rnd) = 0"
  "quiet p \<Longrightarrow> phaseRun p (roundStartEvents this rnd) = Some Idle"
  "e \<in> set (roundStartEvents this rnd) \<Longrightarrow> type e \<noteq> error"
  by (auto simp: roundsStarted_def finalAnswers_def quiet_def seg_defs)

lemma tail_facts:
  assumes "tailOK rnd x T"
  shows "roundsStarted T = 0" "rnd \<le> k \<Longrightarrow> checksOK (Suc k) T"
    "finalAnswers T = (case x of Some (Returned answer) \<Rightarrow> 1 | _ \<Rightarrow> 0)"
    "\<exists>q. phaseRun Idle T = Some q \<and> quiet q"
    "e \<in> set T \<Longrightarrow> type e \<noteq> error"
  using assms
  by (auto simp: tailOK_def roundsStarted_def finalAnswers_def quiet_def seg_defs
      split: option.splits Exit.splits if_splits)

lemma loopTrace_phase:
  "loopTrace this rnd x L \<Longrightarrow> quiet p \<Longrightarrow> \<exists>q. phaseRun p L = Some q \<and> quiet q"
proof (induction arbitrary: p rule: loopTrace.induct)
  case (loop_done rnd this)
  then show ?case by simp
next
  case (loop_exit rnd this E x T)
  then show ?case
    using tail_facts(4)[OF loop_exit.hyps(3)]
    by (simp add: phaseRun_append roundStart_facts(4) roundTrace_phase)
next
  case (loop_next rnd this E T x L)
  from tail_facts(4)[OF loop_next.hyps(3)] obtain q where
    q: "phaseRun Idle T = Some q" "quiet q" by blast
  from loop_next.IH[OF q(2)] obtain q' where "phaseRun q L = Some q'" "quiet q'" by blast
  then show ?case
    using loop_next.prems loop_next.hyps(2) q
    by (simp add: phaseRun_append roundStart_facts(4) roundTrace_phase)
qed

lemma loopTrace_rounds:
  "loopTrace this rnd x L \<Longrightarrow> roundsStarted L \<le> this_maxRounds this - rnd"
proof (induction rule: loopTrace.induct)
  case (loop_done rnd this)
  show ?case by (simp add: roundsStarted_def)
next
  case (loop_exit rnd this E x T)
  then show ?case
    using turnEvents_quiet(1)[of E] roundTrace_turnEvents[of _ E] tail_facts(1)[of rnd "Some x" T]
    by (simp add: roundsStarted_append roundStart_facts(1))
next
  case (loop_next rnd this E T x L)
  then show ?case
    using turnEvents_quiet(1)[of E] roundTrace_turnEvents[of _ E] tail_facts(1)[of rnd None T]
    by (simp add: roundsStarted_append roundStart_facts(1))
qed

lemma loopTrace_checks:
  "loopTrace this rnd x L \<Longrightarrow> rnd \<le> k \<Longrightarrow> checksOK k L"
proof (induction arbitrary: k rule: loopTrace.induct)
  case (loop_done rnd this)
  show ?case by simp
next
  case (loop_exit rnd this E x T)
  then show ?case
    using turnEvents_quiet(1,2)[of E] roundTrace_turnEvents[of _ E]
      tail_facts(1,2)[OF loop_exit.hyps(3)]
    by (simp add: checksOK_append roundStart_facts(1,2))
next
  case (loop_next rnd this E T x L)
  have "checksOK (Suc k) L"
    using loop_next.IH[of "Suc k"] loop_next.prems by simp
  then show ?case
    using loop_next.hyps(2,3) loop_next.prems
      turnEvents_quiet(1,2)[of E] roundTrace_turnEvents[of _ E]
      tail_facts(1,2)[OF loop_next.hyps(3)]
    by (simp add: checksOK_append roundStart_facts(1,2))
qed

lemma loopTrace_finals:
  "loopTrace this rnd x L \<Longrightarrow>
     finalAnswers L = (case x of Some (Returned answer) \<Rightarrow> 1 | _ \<Rightarrow> 0)"
proof (induction rule: loopTrace.induct)
  case (loop_done rnd this)
  show ?case by (simp add: finalAnswers_def)
next
  case (loop_exit rnd this E x T)
  then show ?case
    using turnEvents_quiet(3)[of E] roundTrace_turnEvents[of _ E] tail_facts(3)[of rnd "Some x" T]
    by (simp add: finalAnswers_append roundStart_facts(3))
next
  case (loop_next rnd this E T x L)
  then show ?case
    using turnEvents_quiet(3)[of E] roundTrace_turnEvents[of _ E] tail_facts(3)[of rnd None T]
    by (simp add: finalAnswers_append roundStart_facts(3))
qed

lemma loopTrace_errors:
  "loopTrace this rnd x L \<Longrightarrow> e \<in> set L \<Longrightarrow> type e = error \<Longrightarrow> \<exists>a t. e = failed_event a t"
proof (induction rule: loopTrace.induct)
  case (loop_done rnd this)
  then show ?case by simp
next
  case (loop_exit rnd this E x T)
  then show ?case
    using roundTrace_turnEvents[of _ E e] turnEvent_facts(4)[of e]
      tail_facts(5)[of rnd "Some x" T e] roundStart_facts(5)[of e this rnd]
    by auto
next
  case (loop_next rnd this E T x L)
  then show ?case
    using roundTrace_turnEvents[of _ E e] turnEvent_facts(4)[of e]
      tail_facts(5)[of rnd None T e] roundStart_facts(5)[of e this rnd]
    by auto
qed

lemma research_facts:
  assumes "researchOnly Rs"
  shows "phaseRun Idle Rs = Some Idle" "roundsStarted Rs = 0" "checksOK k Rs" "finalAnswers Rs = 0"
    "e \<in> set Rs \<Longrightarrow> type e \<noteq> error"
proof -
  show "phaseRun Idle Rs = Some Idle"
    using assms by (induction Rs) (auto simp: researchOnly_def phaseStep_def isRoundStart_def)
  show "roundsStarted Rs = 0"
    using assms by (auto simp: researchOnly_def roundsStarted_def isRoundStart_def filter_empty_conv)
  show "checksOK k Rs"
    using assms by (induction Rs) (auto simp: researchOnly_def isRoundStart_def)
  show "finalAnswers Rs = 0"
    using assms by (auto simp: researchOnly_def finalAnswers_def filter_empty_conv)
  show "e \<in> set Rs \<Longrightarrow> type e \<noteq> error"
    using assms by (auto simp: researchOnly_def)
qed

lemma syn_facts:
  assumes "synTail x r S"
  shows "roundsStarted S = 0" "checksOK k S"
    "finalAnswers S = (case x of None \<Rightarrow> (case r of Inr a \<Rightarrow> 1 | Inl e \<Rightarrow> 0) | _ \<Rightarrow> 0)"
    "quiet p \<Longrightarrow> phaseRun p S = Some p"
    "e \<in> set S \<Longrightarrow> type e \<noteq> error"
    "(case x of Some (Returned a) \<Rightarrow> r = Inr a | Some (Aborted t) \<Rightarrow> r = Inl t | None \<Rightarrow> True)"
  using assms
  by (auto simp: synTail_def roundsStarted_def finalAnswers_def quiet_def seg_defs
      split: option.splits Exit.splits sum.splits)

text \<open>What the events of every session satisfy.\<close>

lemma session_facts:
  assumes "runCouncilDebate this env q w = (w', st', r)"
  shows "\<exists>SS. events w' = events w @ SS
           \<and> (\<exists>p. phaseRun Idle SS = Some p \<and> quiet p)
           \<and> roundsStarted SS \<le> this_maxRounds this
           \<and> checksOK 0 SS
           \<and> finalAnswers SS = (case r of Inr a \<Rightarrow> 1 | Inl e \<Rightarrow> 0)
           \<and> (\<forall>e\<in>set SS. type e = error \<longrightarrow> (\<exists>a t. e = failed_event a t))
           \<and> maxRounds st' = this_maxRounds this
           \<and> finalAnswer st' = (case r of Inr a \<Rightarrow> Some a | Inl e \<Rightarrow> None)"
proof -
  from runCouncilDebate_trace[OF assms] obtain Rs L S x where
    ev: "events w' = events w @ costEstimateEvent this # Rs @ L @ S"
    and ro: "researchOnly Rs" and lt: "loopTrace this 0 x L" and sy: "synTail x r S"
    and mr: "maxRounds st' = this_maxRounds this"
    and fa: "finalAnswer st' = (case r of Inr answer \<Rightarrow> Some answer | Inl e \<Rightarrow> None)"
    by blast
  let ?SS = "costEstimateEvent this # Rs @ L @ S"
  from loopTrace_phase[OF lt, of Idle] obtain p where p: "phaseRun Idle L = Some p" "quiet p"
    by (auto simp: quiet_def)
  have ph: "phaseRun Idle ?SS = Some p"
    using research_facts(1)[OF ro] p syn_facts(4)[OF sy p(2)]
    by (simp add: phaseRun_append costEstimateEvent_def phaseStep_def isRoundStart_def)
  have rs: "roundsStarted ?SS \<le> this_maxRounds this"
    using loopTrace_rounds[OF lt] research_facts(2)[OF ro] syn_facts(1)[OF sy]
    by (simp add: roundsStarted_def costEstimateEvent_def isRoundStart_def)
  have ck: "checksOK 0 ?SS"
    using loopTrace_checks[OF lt] research_facts(2,3)[OF ro] syn_facts(2)[OF sy]
    by (simp add: checksOK_append costEstimateEvent_def isRoundStart_def)
  have fin: "finalAnswers ?SS = (case r of Inr a \<Rightarrow> 1 | Inl e \<Rightarrow> 0)"
    using loopTrace_finals[OF lt] research_facts(4)[OF ro] syn_facts(3,6)[OF sy]
    by (cases "costEstimateEvent this # Rs" rule: list.exhaust)
       (auto simp: finalAnswers_def costEstimateEvent_def split: option.splits Exit.splits sum.splits)
  have er: "\<forall>e\<in>set ?SS. type e = error \<longrightarrow> (\<exists>a t. e = failed_event a t)"
    using loopTrace_errors[OF lt] research_facts(5)[OF ro] syn_facts(5)[OF sy]
    by (auto simp: costEstimateEvent_def)
  show ?thesis
    using ev ph p(2) rs ck fin er mr fa by blast
qed

lemma checksOK_index:
  assumes "checksOK 0 evs" "i < length evs" "type (evs ! i) = consensus_check"
  shows "2 \<le> roundsStarted (take i evs)"
proof -
  have "evs = take i evs @ evs ! i # drop (Suc i) evs"
    using assms(2) by (simp add: id_take_nth_drop)
  then have "checksOK 0 (take i evs @ evs ! i # drop (Suc i) evs)"
    using assms(1) by simp
  then show ?thesis
    using assms(3) by (simp add: checksOK_append)
qed


lemma POST_stream_facts:
  assumes "runCouncilDebate (orchestratorOf env rq) env (question rq) noWorld = (w', st', r)"
  shows "phaseRun Idle (POST_stream env rq) \<noteq> None"
    "roundsStarted (POST_stream env rq) \<le> this_maxRounds (orchestratorOf env rq)"
    "checksOK 0 (POST_stream env rq)"
    "finalAnswers (POST_stream env rq) = (case r of Inr a \<Rightarrow> 1 | Inl e \<Rightarrow> 0)"
proof -
  from session_facts[OF assms] obtain SS p where
    ev: "events w' = events noWorld @ SS" and ph: "phaseRun Idle SS = Some p" "quiet p"
    and rs: "roundsStarted SS \<le> this_maxRounds (orchestratorOf env rq)"
    and ck: "checksOK 0 SS" and fin: "finalAnswers SS = (case r of Inr a \<Rightarrow> 1 | Inl e \<Rightarrow> 0)"
    by blast
  have ev': "events w' = SS" by (simp add: ev noWorld_def)
  have post: "POST_stream env rq =
      (case r of Inr a \<Rightarrow> SS | Inl e \<Rightarrow> SS @ [event error None (Some (getSafeErrorMessage env e))])"
    using assms by (simp add: POST_stream_def ev' split: sum.splits)
  show "phaseRun Idle (POST_stream env rq) \<noteq> None"
    using ph by (auto simp: post phaseRun_append quiet_def phaseStep_def event_def isRoundStart_def
        split: sum.splits)
  show "roundsStarted (POST_stream env rq) \<le> this_maxRounds (orchestratorOf env rq)"
    using rs by (auto simp: post roundsStarted_def event_def isRoundStart_def split: sum.splits)
  show "checksOK 0 (POST_stream env rq)"
    using ck by (auto simp: post checksOK_append event_def split: sum.splits)
  show "finalAnswers (POST_stream env rq) = (case r of Inr a \<Rightarrow> 1 | Inl e \<Rightarrow> 0)"
    using fin by (auto simp: post finalAnswers_def event_def split: sum.splits)
qed

lemma fatal_not_turn_failure:
  "failed_event a t \<noteq> fatalEvent env (InsufficientResponses n)"
  by (cases a) (simp_all add: failed_event_def fatalEvent_def event_def getSafeErrorMessage_def)

text \<open>The events of a session of two rounds, by their types.\<close>

lemma standard_stream_types:
  "map type (POST_stream (scriptedEnv standardReplies) (exampleRequest standard [naval, elon, larry]))
   = [cost_estimate, status, moderator_analysis,
      status, agent_start, agent_response, agent_complete,
      status, agent_start, agent_response, agent_complete,
      status, agent_start, agent_response, agent_complete,
      status, moderator_analysis,
      status, agent_start, agent_response, agent_complete,
      status, agent_start, agent_response, agent_complete,
      status, agent_start, agent_response, agent_complete,
      status, consensus_check, status, moderator_analysis, final_answer]"
  by (simp add: eval_defs)

subsection \<open>The turns that respond, and the requests and the state of the loop\<close>

lemma selectedAdvisors_orchestratorOf: "this_selectedAdvisors (orchestratorOf env rq) = advisors rq"
  by (simp add: orchestratorOf_def constructor_def Let_def)

lemma maxRounds_orchestratorOf: "this_maxRounds (orchestratorOf env rq) = modeMap (mode rq)"
  by (simp add: orchestratorOf_def constructor_def Let_def)

lemma run_sessionLoop:
  "runCouncilDebate (orchestratorOf env rq) env (question rq) noWorld
     = afterRounds (orchestratorOf env rq) env (sessionLoop env rq)"
  by (simp add: runCouncilDebate_def sessionLoop_def afterRounds_def Let_def split: prod.splits)

lemma calls_complete_text: "complete_text env q w = (w', r) \<Longrightarrow> calls w' = calls w @ [q]"
  by (auto simp: complete_text_def call_llm_def split: Reply.splits)

lemma calls_analyzeConsensus:
  "analyzeConsensus this env st w = (w', r) \<Longrightarrow>
     calls w' = calls w @ (if length (latestResponses this st) < 3 then [] else [analysisRequest this st])"
  by (auto simp: analyzeConsensus_def analysisRequest_def dest: calls_complete_text
      split: if_splits prod.splits sum.splits)

lemma calls_generateFinalAnswer:
  "generateFinalAnswer this env st c w = (w', r) \<Longrightarrow> \<exists>q. calls w' = calls w @ [q] \<and> \<not> stream q"
  by (auto simp: generateFinalAnswer_def dest: calls_complete_text)

lemma moderatorAfter_append:
  "moderatorAfter need k (xs @ ys)
     = (moderatorAfter need k xs \<and> moderatorAfter need (k + length (filter stream xs)) ys)"
  by (induction xs arbitrary: k) auto

lemma moderatorAfter_reached: "need \<le> k \<Longrightarrow> moderatorAfter need k xs"
  by (induction xs arbitrary: k) auto

lemma moderatorAfter_advisors: "\<forall>q\<in>set xs. stream q \<Longrightarrow> moderatorAfter need k xs"
  by (induction xs arbitrary: k) auto

lemma moderatorAfter_index:
  assumes "moderatorAfter need 0 C" "i < length C" "\<not> stream (C ! i)"
  shows "need \<le> length (filter stream (take i C))"
proof -
  have "C = take i C @ C ! i # drop (Suc i) C"
    using assms(2) by (simp add: id_take_nth_drop)
  then have "moderatorAfter need 0 (take i C @ C ! i # drop (Suc i) C)"
    using assms(1) by simp
  then show ?thesis
    using assms(3) by (simp add: moderatorAfter_append)
qed

lemma debateIteration_calls:
  assumes "debateIteration this env rnd st w = (w', st', x)"
  shows "\<exists>R M. calls w' = calls w @ R @ M \<and> length R = length (this_selectedAdvisors this)
           \<and> (\<forall>q\<in>set R. stream q) \<and> (\<forall>q\<in>set M. \<not> stream q) \<and> (rnd = 0 \<longrightarrow> M = [])"
proof -
  let ?v = "emits (roundStartEvents this rnd) w"
  obtain w1 shared r where rd: "runDebateRound this env st ?v = (w1, shared, r)"
    by (metis prod_cases3)
  from runDebateRound_trace[OF rd] obtain R where
    ca: "calls w1 = calls ?v @ R" and len: "length R = length (this_selectedAdvisors this)"
    and str: "\<forall>q\<in>set R. stream q"
    by blast
  have ca': "calls w1 = calls w @ R" by (simp add: ca emits_def)
  have "\<exists>M. calls w' = calls w1 @ M \<and> (\<forall>q\<in>set M. \<not> stream q) \<and> (rnd = 0 \<longrightarrow> M = [])"
  proof (cases r)
    case (Inl e)
    with assms rd have "w' = w1" by (simp add: debateIteration_def)
    then show ?thesis by simp
  next
    case (Inr st1)
    show ?thesis
    proof (cases "rnd \<ge> 1")
      case False
      with assms rd Inr have "w' = w1" by (simp add: debateIteration_def)
      then show ?thesis by simp
    next
      case True
      obtain w2 a where an: "analyzeConsensus this env st1 (emits consensusCheckEvents w1) = (w2, a)"
        by (metis prod.exhaust)
      from calls_analyzeConsensus[OF an] obtain A where c2: "calls w2 = calls w1 @ A"
        and nA: "\<forall>q\<in>set A. \<not> stream q"
        by (simp add: emits_def analysisRequest_def)
      show ?thesis
      proof (cases a)
        case (Inl e)
        with assms rd \<open>r = Inr st1\<close> True an have "w' = w2"
          by (simp add: debateIteration_def)
        then show ?thesis using c2 nA True by auto
      next
        case (Inr c)
        note c = Inr
        show ?thesis
        proof (cases "ca_consensusReached c")
          case False
          with assms rd \<open>r = Inr st1\<close> True an c have "w' = w2"
            by (simp add: debateIteration_def)
          then show ?thesis using c2 nA True by auto
        next
          case reached: True
          obtain w3 f where
            fa: "generateFinalAnswer this env st1 c (emits consensusReachedEvents w2) = (w3, f)"
            by (metis prod.exhaust)
          from calls_generateFinalAnswer[OF fa] obtain q where c3: "calls w3 = calls w2 @ [q]"
            and nq: "\<not> stream q"
            by (auto simp: emits_def)
          have "calls w' = calls w3"
            using assms rd \<open>r = Inr st1\<close> True an c reached fa
            by (cases f) (auto simp: debateIteration_def emit_def)
          then have "calls w' = calls w1 @ (A @ [q])" by (simp add: c2 c3)
          then show ?thesis using nA nq True by (intro exI[of _ "A @ [q]"]) auto
        qed
      qed
    qed
  qed
  then show ?thesis using ca' len str by auto
qed

lemma debateRounds_calls:
  "debateRounds this env rnd st w = (w', st', x) \<Longrightarrow>
     \<exists>C. calls w' = calls w @ C
        \<and> (\<forall>k. rnd * length (this_selectedAdvisors this) \<le> k
               \<longrightarrow> moderatorAfter (2 * length (this_selectedAdvisors this)) k C)
        \<and> length (filter stream C) \<le> (this_maxRounds this - rnd) * length (this_selectedAdvisors this)"
proof (induction this env rnd st w arbitrary: w' st' x rule: debateRounds.induct)
  case (1 this env rnd state w)
  let ?n = "length (this_selectedAdvisors this)"
  show ?case
  proof (cases "rnd < this_maxRounds this")
    case False
    with "1.prems" have "w' = w"
      by (simp add: debateRounds.simps[of this env rnd])
    then show ?thesis by simp
  next
    case True
    obtain w1 st1 x1 where it: "debateIteration this env rnd state w = (w1, st1, x1)"
      by (metis prod_cases3)
    from debateIteration_calls[OF it] obtain R M where
      c1: "calls w1 = calls w @ R @ M" and len: "length R = ?n"
      and str: "\<forall>q\<in>set R. stream q" and nM: "\<forall>q\<in>set M. \<not> stream q"
      and first: "rnd = 0 \<longrightarrow> M = []"
      by blast
    have fs: "length (filter stream R) = ?n"
      using str len by (simp add: filter_True)
    have fM: "filter stream M = []"
      using nM by (simp add: filter_empty_conv)
    have fRM: "length (filter stream (R @ M)) = ?n"
      by (simp only: filter_append fM fs append_Nil2)
    from True have "Suc (this_maxRounds this - Suc rnd) = this_maxRounds this - rnd"
      by simp
    then have budget: "?n + (this_maxRounds this - (rnd + 1)) * ?n = (this_maxRounds this - rnd) * ?n"
      by (metis Suc_eq_plus1 mult_Suc)
    have one: "?n \<le> (this_maxRounds this - rnd) * ?n"
      using budget by (metis le_add1)
    have head: "moderatorAfter (2 * ?n) k (R @ M)" if "rnd * ?n \<le> k" for k
    proof (cases "rnd = 0")
      case True
      with first show ?thesis by (simp add: moderatorAfter_advisors str)
    next
      case False
      then have "?n \<le> rnd * ?n" by (cases rnd) simp_all
      then have "?n \<le> k" using that by (rule order_trans)
      then have "2 * ?n \<le> k + length (filter stream R)" by (simp only: fs)
      then have "moderatorAfter (2 * ?n) (k + length (filter stream R)) M"
        by (rule moderatorAfter_reached)
      then show ?thesis
        unfolding moderatorAfter_append using moderatorAfter_advisors[OF str] by blast
    qed
    show ?thesis
    proof (cases x1)
      case None
      with True it "1.prems" have rec: "debateRounds this env (rnd + 1) st1 w1 = (w', st', x)"
        by (simp add: debateRounds.simps[of this env rnd])
      from "1.IH"[OF True it[symmetric] refl None rec] obtain C where
        c2: "calls w' = calls w1 @ C"
        and ok: "\<And>k. (rnd + 1) * ?n \<le> k \<Longrightarrow> moderatorAfter (2 * ?n) k C"
        and cnt: "length (filter stream C) \<le> (this_maxRounds this - (rnd + 1)) * ?n"
        by blast
      have "length (filter stream ((R @ M) @ C)) = ?n + length (filter stream C)"
        by (simp only: filter_append[of stream "R @ M" C] length_append fRM)
      then have total: "length (filter stream ((R @ M) @ C)) \<le> (this_maxRounds this - rnd) * ?n"
        using cnt budget by linarith
      have "moderatorAfter (2 * ?n) k ((R @ M) @ C)" if "rnd * ?n \<le> k" for k
      proof -
        have "(rnd + 1) * ?n \<le> k + length (filter stream (R @ M))"
          using that by (simp only: fRM) simp
        from ok[OF this] head[OF that] show ?thesis
          by (simp only: moderatorAfter_append[of _ _ "R @ M" C])
      qed
      moreover have "calls w' = calls w @ (R @ M) @ C"
        by (simp add: c2 c1)
      ultimately show ?thesis using total by blast
    next
      case (Some exit)
      with True it "1.prems" have "w' = w1"
        by (simp add: debateRounds.simps[of this env rnd])
      then have "calls w' = calls w @ (R @ M)"
        using c1 by simp
      moreover have "length (filter stream (R @ M)) \<le> (this_maxRounds this - rnd) * ?n"
        using one by (simp only: fRM)
      ultimately show ?thesis
        using head by blast
    qed
  qed
qed

lemma debateIteration_state:
  assumes "debateIteration this env rnd st w = (w', st', x)"
  shows "consensusReached st' = (consensusReached st \<or> (\<exists>a. x = Some (Returned a)))"
    and "x = None \<Longrightarrow> currentRound st' = currentRound st + 1"
proof -
  let ?v = "emits (roundStartEvents this rnd) w"
  obtain w1 shared r where rd: "runDebateRound this env st ?v = (w1, shared, r)"
    by (metis prod_cases3)
  from runDebateRound_trace[OF rd] obtain n where
    r: "r = (if n < 2 then Inl (InsufficientResponses n)
             else Inr (st\<lparr>currentRound := currentRound st + 1, agentResponses := shared\<rparr>))"
    by blast
  show "consensusReached st' = (consensusReached st \<or> (\<exists>a. x = Some (Returned a)))"
    using assms rd r
    by (auto simp: debateIteration_def split: sum.splits prod.splits if_splits)
  show "x = None \<Longrightarrow> currentRound st' = currentRound st + 1"
    using assms rd r
    by (auto simp: debateIteration_def split: sum.splits prod.splits if_splits)
qed

lemma debateRounds_state:
  "debateRounds this env rnd st w = (w', st', x) \<Longrightarrow>
     consensusReached st' = (consensusReached st \<or> (\<exists>a. x = Some (Returned a)))
     \<and> (x = None \<longrightarrow> currentRound st' = currentRound st + (this_maxRounds this - rnd))"
proof (induction this env rnd st w arbitrary: w' st' x rule: debateRounds.induct)
  case (1 this env rnd state w)
  show ?case
  proof (cases "rnd < this_maxRounds this")
    case False
    with "1.prems" have "st' = state" "x = None"
      by (simp_all add: debateRounds.simps[of this env rnd])
    then show ?thesis using False by simp
  next
    case True
    obtain w1 st1 x1 where it: "debateIteration this env rnd state w = (w1, st1, x1)"
      by (metis prod_cases3)
    note s1 = debateIteration_state[OF it]
    show ?thesis
    proof (cases x1)
      case None
      with True it "1.prems" have rec: "debateRounds this env (rnd + 1) st1 w1 = (w', st', x)"
        by (simp add: debateRounds.simps[of this env rnd])
      from "1.IH"[OF True it[symmetric] refl None rec] s1 None True show ?thesis
        by auto
    next
      case (Some exit)
      with True it "1.prems" have "st' = st1" "x = Some exit"
        by (simp_all add: debateRounds.simps[of this env rnd])
      then show ?thesis
        using s1(1) Some by simp
    qed
  qed
qed

lemma loopTrace_returned:
  "loopTrace this rnd x L \<Longrightarrow> x = Some (Returned a) \<Longrightarrow>
     2 \<le> rnd + roundsStarted L \<and> (\<exists>e\<in>set L. type e = consensus_check)"
proof (induction rule: loopTrace.induct)
  case (loop_done rnd this)
  then show ?case by simp
next
  case (loop_exit rnd this E x T)
  then have "1 \<le> rnd" "\<exists>e\<in>set T. type e = consensus_check"
    by (simp_all add: tailOK_def consensusCheckEvents_def event_def)
  then show ?case
    by (auto simp: roundsStarted_append roundStart_facts(1))
next
  case (loop_next rnd this E T x L)
  then show ?case
    by (auto simp: roundsStarted_append roundStart_facts(1))
qed

lemma loopTrace_exhausted:
  "loopTrace this rnd x L \<Longrightarrow> x = None \<Longrightarrow> roundsStarted L = this_maxRounds this - rnd"
proof (induction rule: loopTrace.induct)
  case (loop_done rnd this)
  then show ?case by (simp add: roundsStarted_def)
next
  case (loop_exit rnd this E x T)
  then show ?case by simp
next
  case (loop_next rnd this E T x L)
  then show ?case
    using turnEvents_quiet(1)[of E] roundTrace_turnEvents[of _ E] tail_facts(1)[of rnd None T]
    by (simp add: roundsStarted_append roundStart_facts(1))
qed

lemma synthesize_calls:
  assumes "synthesize this env st w = (w', st', r)"
  shows "\<exists>F. calls w' = calls w @ (if length (latestResponses this st) < 3 then []
                                   else [analysisRequest this st]) @ F
             \<and> length F \<le> 1 \<and> (\<forall>q\<in>set F. \<not> stream q)"
proof -
  let ?w1 = "emit maxRoundsEvent w"
  let ?A = "if length (latestResponses this st) < 3 then [] else [analysisRequest this st]"
  obtain w2 a where an: "analyzeConsensus this env st ?w1 = (w2, a)"
    by (metis prod.exhaust)
  from calls_analyzeConsensus[OF an] have c2: "calls w2 = calls w @ ?A"
    by (simp add: emit_def)
  show ?thesis
  proof (cases a)
    case (Inl e)
    with assms an have "w' = w2"
      by (simp add: synthesize_def maxRoundsEvent_def)
    then show ?thesis using c2 by simp
  next
    case (Inr c)
    obtain w3 f where fa: "generateFinalAnswer this env st c w2 = (w3, f)"
      by (metis prod.exhaust)
    from calls_generateFinalAnswer[OF fa] obtain q where c3: "calls w3 = calls w2 @ [q]" "\<not> stream q"
      by blast
    have "calls w' = calls w3"
      using assms an Inr fa
      by (cases f) (auto simp: synthesize_def emit_def maxRoundsEvent_def)
    then show ?thesis
      using c2 c3 by (intro exI[of _ "[q]"]) simp
  qed
qed


lemma sessionLoop_unfold:
  "sessionLoop env rq =
     debateRounds (orchestratorOf env rq) env 0
       (snd (researchStep (orchestratorOf env rq) env (question rq)
               (createInitialState (orchestratorOf env rq) (question rq))
               (emit (costEstimateEvent (orchestratorOf env rq)) noWorld)))
       (fst (researchStep (orchestratorOf env rq) env (question rq)
               (createInitialState (orchestratorOf env rq) (question rq))
               (emit (costEstimateEvent (orchestratorOf env rq)) noWorld)))"
  by (simp add: sessionLoop_def Let_def split_def)

lemma synthesize_consensusReached:
  "synthesize this env st w = (w', st', r) \<Longrightarrow> consensusReached st' = consensusReached st"
  by (auto simp: synthesize_def Let_def split: prod.splits sum.splits)

lemma sessionLoop_facts:
  assumes "sessionLoop env rq = (w3, st2, x)"
  shows "\<exists>L. roundsStarted (events w3) = roundsStarted L \<and> set L \<subseteq> set (events w3)
             \<and> loopTrace (orchestratorOf env rq) 0 x L"
    and "moderatorAfter (2 * length (advisors rq)) 0 (calls w3)"
    and "consensusReached st2 = (\<exists>a. x = Some (Returned a))"
    and "x = None \<Longrightarrow> currentRound st2 = modeMap (mode rq)"
    and "length (filter stream (calls w3)) \<le> modeMap (mode rq) * length (advisors rq)"
proof -
  let ?orch = "orchestratorOf env rq"
  let ?st0 = "createInitialState ?orch (question rq)"
  let ?w1 = "emit (costEstimateEvent ?orch) noWorld"
  obtain w2 st1 where rs: "researchStep ?orch env (question rq) ?st0 ?w1 = (w2, st1)"
    by (metis prod.exhaust)
  with assms have lp: "debateRounds ?orch env 0 st1 w2 = (w3, st2, x)"
    by (simp add: sessionLoop_def Let_def)
  from researchStep_trace[OF rs] obtain Rs where
    ev2: "events w2 = events ?w1 @ Rs" and ro: "researchOnly Rs"
    and cr1: "currentRound st1 = currentRound ?st0"
    by blast
  have c2: "calls w2 = []"
    using calls_researchStep[of ?orch env "question rq" ?st0 ?w1] rs
    by (simp add: emit_def noWorld_def)
  have "st1 = ?st0\<lparr>researchResults := researchResults st1\<rparr>"
    using researchStep_frame[of ?orch env "question rq" ?st0 ?w1] rs by simp
  then have "consensusReached st1 = consensusReached ?st0"
    by (metis (no_types, lifting) DebateState.select_convs(4) DebateState.surjective
        DebateState.update_convs(9))
  then have cons1: "\<not> consensusReached st1"
    by (simp add: createInitialState_def)
  from debateRounds_trace[OF lp] obtain L where
    ev3: "events w3 = events w2 @ L" and lt: "loopTrace ?orch 0 x L"
    by blast
  have "roundsStarted (events w3) = roundsStarted L"
    using research_facts(2)[OF ro]
    by (simp add: ev3 ev2 emit_def noWorld_def roundsStarted_append)
       (simp add: roundsStarted_def costEstimateEvent_def isRoundStart_def)
  moreover have "set L \<subseteq> set (events w3)"
    by (simp add: ev3)
  ultimately show "\<exists>L. roundsStarted (events w3) = roundsStarted L \<and> set L \<subseteq> set (events w3)
             \<and> loopTrace (orchestratorOf env rq) 0 x L"
    using lt by blast
  from debateRounds_calls[OF lp] show "moderatorAfter (2 * length (advisors rq)) 0 (calls w3)"
    by (auto simp: c2 selectedAdvisors_orchestratorOf)
  from debateRounds_state[OF lp] cons1
  show "consensusReached st2 = (\<exists>a. x = Some (Returned a))"
    by simp
  from debateRounds_state[OF lp] show "x = None \<Longrightarrow> currentRound st2 = modeMap (mode rq)"
    by (simp add: cr1 createInitialState_def maxRounds_orchestratorOf)
  from debateRounds_calls[OF lp]
  show "length (filter stream (calls w3)) \<le> modeMap (mode rq) * length (advisors rq)"
    by (auto simp: c2 selectedAdvisors_orchestratorOf maxRounds_orchestratorOf)
qed

lemma debateIteration_lists:
  assumes "debateIteration this env rnd st w = (w', st', x)"
  shows "(agentResponses st' a = None) = (agentResponses st a = None)"
proof -
  let ?v = "emits (roundStartEvents this rnd) w"
  obtain w1 shared r where rd: "runDebateRound this env st ?v = (w1, shared, r)"
    by (metis prod_cases3)
  from runDebateRound_trace[OF rd] obtain R where
    sh: "\<And>b. shared b = map_option (\<lambda>rs. rs @ appendedBy env b
                 (turnsOf (this_selectedAdvisors this) (length (calls ?v)) R)) (agentResponses st b)"
    and r: "r = (if successes env st (turnsOf (this_selectedAdvisors this) (length (calls ?v)) R) < 2
                  then Inl (InsufficientResponses
                              (successes env st (turnsOf (this_selectedAdvisors this) (length (calls ?v)) R)))
                  else Inr (st\<lparr>currentRound := currentRound st + 1, agentResponses := shared\<rparr>))"
    by blast
  have "agentResponses st' = shared"
    using assms rd r
    by (auto simp: debateIteration_def split: if_splits prod.splits sum.splits)
  then show ?thesis by (simp add: sh)
qed

lemma roundBegins_lists:
  "roundBegins this env q rnd st w \<Longrightarrow> a \<in> set (this_selectedAdvisors this) \<Longrightarrow>
     agentResponses st a \<noteq> None"
proof (induction rule: roundBegins.induct)
  case (first_round this env q w st)
  from researchStep_trace[OF first_round.hyps]
  have "agentResponses st = agentResponses (createInitialState this q)" by blast
  then show ?case
    using first_round.prems by (simp add: createInitialState_def)
next
  case (next_round this env q rnd st w w' st')
  then show ?case
    using debateIteration_lists[OF next_round.hyps(3), of a] by simp
qed

lemma successes_responded:
  assumes "\<And>a. a \<in> set as \<Longrightarrow> agentResponses st a \<noteq> None"
  shows "successes env st (turnsOf as k R) = responded env (turnsOf as k R)"
proof -
  have "(case t of (b, i, rq) \<Rightarrow> replyText (llm env i rq) \<noteq> None \<and> agentResponses st b \<noteq> None)
      = (case t of (b, i, rq) \<Rightarrow> replyText (llm env i rq) \<noteq> None)"
    if "t \<in> set (turnsOf as k R)" for t
  proof -
    obtain b i rq where t: "t = (b, i, rq)" by (metis prod_cases3)
    with that have "b \<in> set as" by (auto simp: turnsOf_def dest: set_zip_leftD)
    with assms t show ?thesis by simp
  qed
  then show ?thesis
    unfolding successes_def responded_def by (metis (no_types, lifting) filter_cong)
qed

section \<open>The claims\<close>

text \<open>
  C1. The first round of a session with the advisors naval and elon, in which naval
  answers \<open>A\<close>. \<open>runDebateRound\<close> increments \<open>currentRound\<close> before the turns, so the
  test \<open>state.currentRound === 0\<close> of \<open>getAdvisorResponse\<close> fails in round 1 as well: both
  prompts of the round are those of a later round, labelled Round 2, and the prompt of
  elon contains the response that naval has just given. Round 1 does not carry the
  question and the research findings only.
\<close>

theorem round1_prompt_shows_earlier_responses:
  "map prompt (calls (fst (runDebateRound (exampleOrchestrator quick [naval, elon])
                 (scriptedEnv [Replied [''A''], Replied [''B'']])
                 (initialState quick [naval, elon]) noWorld)))
   = [''You are participating in an AI council debate. The user has asked:'' @ NL @ NL
      @ DQ @ ''Q'' @ DQ @ NL @ NL
      @ ''This is Round 2. Here'' @ SQ @ ''s what other advisors have said:'' @ NL @ NL @ NL @ NL
      @ ''Provide your response, addressing points of agreement or disagreement with other advisors if relevant.'',
      ''You are participating in an AI council debate. The user has asked:'' @ NL @ NL
      @ DQ @ ''Q'' @ DQ @ NL @ NL
      @ ''This is Round 2. Here'' @ SQ @ ''s what other advisors have said:'' @ NL @ NL
      @ ''**Naval Ravikant**: A'' @ NL @ NL @ NL @ NL
      @ ''Provide your response, addressing points of agreement or disagreement with other advisors if relevant.'']"
  by (simp add: example_defs round_defs prompt_defs)

text \<open>
  C2. Take any round that the loop of a session reaches, and count the turns of the round
  whose call succeeds, that is, returns a response that is not empty: \<open>responded\<close>, over
  the requests that the round sends, one for each entry of the advisors, in order. When
  fewer than two turns succeed, \<open>runDebateRound\<close> throws the error for insufficient
  responses with that count, \<open>runCouncilDebate\<close> throws it and leaves the final answer of
  the state unset, the stream ends with the \<open>error\<close> event that the route writes for it,
  this event occurs once in the stream, and the stream has no \<open>final_answer\<close> event.
\<close>

theorem insufficient_round_aborts:
  assumes "roundBegins (orchestratorOf env rq) env (question rq) rnd st w"
    and "rnd < this_maxRounds (orchestratorOf env rq)"
    and "w0 = emits (roundStartEvents (orchestratorOf env rq) rnd) w"
    and "runDebateRound (orchestratorOf env rq) env st w0 = (w1, shared, r)"
    and "responded env (roundTurns (orchestratorOf env rq) w0 w1) < 2"
  shows "map fst (roundTurns (orchestratorOf env rq) w0 w1) = advisors rq
     \<and> r = Inl (InsufficientResponses (responded env (roundTurns (orchestratorOf env rq) w0 w1)))
     \<and> runCouncilDebate (orchestratorOf env rq) env (question rq) noWorld
         = (w1, st\<lparr>agentResponses := shared\<rparr>,
            Inl (InsufficientResponses (responded env (roundTurns (orchestratorOf env rq) w0 w1))))
     \<and> finalAnswer (st\<lparr>agentResponses := shared\<rparr>) = None
     \<and> POST_stream env rq
         = events w1 @ [fatalEvent env (InsufficientResponses
                           (responded env (roundTurns (orchestratorOf env rq) w0 w1)))]
     \<and> length (filter (\<lambda>ev. ev = fatalEvent env (InsufficientResponses
                           (responded env (roundTurns (orchestratorOf env rq) w0 w1))))
                 (POST_stream env rq)) = 1
     \<and> finalAnswers (POST_stream env rq) = 0"
proof -
  let ?orch = "orchestratorOf env rq"
  let ?st' = "st\<lparr>agentResponses := shared\<rparr>"
  let ?n = "responded env (roundTurns ?orch w0 w1)"
  from runDebateRound_trace[OF assms(4)] obtain R where
    ca: "calls w1 = calls w0 @ R" and len: "length R = length (this_selectedAdvisors ?orch)"
    and res: "r = (if successes env st (turnsOf (this_selectedAdvisors ?orch) (length (calls w0)) R) < 2
                  then Inl (InsufficientResponses
                              (successes env st (turnsOf (this_selectedAdvisors ?orch) (length (calls w0)) R)))
                  else Inr (st\<lparr>currentRound := currentRound st + 1, agentResponses := shared\<rparr>))"
    by blast
  have turns: "roundTurns ?orch w0 w1 = turnsOf (this_selectedAdvisors ?orch) (length (calls w0)) R"
    by (simp add: roundTurns_def ca)
  have all: "map fst (roundTurns ?orch w0 w1) = advisors rq"
    by (simp add: turns turnsOf_def len selectedAdvisors_orchestratorOf)
  have "successes env st (turnsOf (this_selectedAdvisors ?orch) (length (calls w0)) R) = ?n"
    using successes_responded[OF roundBegins_lists[OF assms(1)]] by (simp add: turns)
  with res assms(5) have e: "r = Inl (InsufficientResponses ?n)" by simp
  have it: "debateIteration ?orch env rnd st w = (w1, ?st', Some (Aborted (InsufficientResponses ?n)))"
    using assms(3,4) e by (simp add: debateIteration_def)
  have "debateRounds ?orch env rnd st w = (w1, ?st', Some (Aborted (InsufficientResponses ?n)))"
    using assms(2) it by (simp add: debateRounds.simps[of ?orch env rnd])
  then have run: "runCouncilDebate ?orch env (question rq) noWorld
        = (w1, ?st', Inl (InsufficientResponses ?n))"
    using roundBegins_run[OF assms(1)] by (simp add: afterRounds_def)
  from session_facts[OF run] obtain SS where
    ev: "events w1 = events noWorld @ SS"
    and er: "\<forall>ev\<in>set SS. type ev = error \<longrightarrow> (\<exists>a t. ev = failed_event a t)"
    and fa: "finalAnswer ?st' = None"
    by auto
  have ev': "events w1 = SS" by (simp add: ev noWorld_def)
  have post: "POST_stream env rq = events w1 @ [fatalEvent env (InsufficientResponses ?n)]"
    using run by (simp add: POST_stream_def fatalEvent_def)
  have "filter (\<lambda>ev. ev = fatalEvent env (InsufficientResponses ?n)) SS = []"
  proof -
    have "ev \<noteq> fatalEvent env (InsufficientResponses ?n)" if "ev \<in> set SS" for ev
    proof
      assume eq: "ev = fatalEvent env (InsufficientResponses ?n)"
      then have "type ev = error" by (simp add: fatalEvent_def event_def)
      with er that obtain a t where "ev = failed_event a t" by blast
      with eq show False using fatal_not_turn_failure[of a t env ?n] by simp
    qed
    then show ?thesis by (auto simp: filter_empty_conv)
  qed
  then have one: "length (filter (\<lambda>ev. ev = fatalEvent env (InsufficientResponses ?n))
                            (POST_stream env rq)) = 1"
    by (simp add: post ev')
  have fin: "finalAnswers (POST_stream env rq) = 0"
    using POST_stream_facts(4)[OF run] by simp
  show ?thesis
    using all e run fa post one fin by blast
qed

text \<open>
  A session whose first round has one response only (one call times out and one response
  is empty), and a session whose first round has no response at all.
\<close>

theorem insufficient_round_aborts_witness:
  "roundBegins (orchestratorOf (scriptedEnv failingReplies) (exampleRequest standard [naval, elon, larry]))
      (scriptedEnv failingReplies) (question (exampleRequest standard [naval, elon, larry])) 0
      (initialState standard [naval, elon, larry])
      (emit (costEstimateEvent (orchestratorOf (scriptedEnv failingReplies)
                                  (exampleRequest standard [naval, elon, larry]))) noWorld)
   \<and> responded (scriptedEnv failingReplies)
        (roundTurns (orchestratorOf (scriptedEnv failingReplies) (exampleRequest standard [naval, elon, larry]))
           (emits (roundStartEvents (orchestratorOf (scriptedEnv failingReplies)
                                       (exampleRequest standard [naval, elon, larry])) 0)
              (emit (costEstimateEvent (orchestratorOf (scriptedEnv failingReplies)
                                          (exampleRequest standard [naval, elon, larry]))) noWorld))
           (fst (runDebateRound
                   (orchestratorOf (scriptedEnv failingReplies) (exampleRequest standard [naval, elon, larry]))
                   (scriptedEnv failingReplies) (initialState standard [naval, elon, larry])
                   (emits (roundStartEvents (orchestratorOf (scriptedEnv failingReplies)
                                               (exampleRequest standard [naval, elon, larry])) 0)
                      (emit (costEstimateEvent (orchestratorOf (scriptedEnv failingReplies)
                                                  (exampleRequest standard [naval, elon, larry]))) noWorld))))) = 1
   \<and> snd (snd (runCouncilDebate
                (orchestratorOf (scriptedEnv failingReplies) (exampleRequest standard [naval, elon, larry]))
                (scriptedEnv failingReplies) (question (exampleRequest standard [naval, elon, larry])) noWorld))
       = Inl (InsufficientResponses 1)
   \<and> finalAnswers (POST_stream (scriptedEnv failingReplies)
                      (exampleRequest standard [naval, elon, larry])) = 0
   \<and> length (filter (\<lambda>ev. ev = fatalEvent (scriptedEnv failingReplies) (InsufficientResponses 1))
               (POST_stream (scriptedEnv failingReplies)
                  (exampleRequest standard [naval, elon, larry]))) = 1
   \<and> responded (scriptedEnv silentReplies)
        (roundTurns (orchestratorOf (scriptedEnv silentReplies) (exampleRequest quick [naval, elon]))
           (emits (roundStartEvents (orchestratorOf (scriptedEnv silentReplies)
                                       (exampleRequest quick [naval, elon])) 0)
              (emit (costEstimateEvent (orchestratorOf (scriptedEnv silentReplies)
                                          (exampleRequest quick [naval, elon]))) noWorld))
           (fst (runDebateRound
                   (orchestratorOf (scriptedEnv silentReplies) (exampleRequest quick [naval, elon]))
                   (scriptedEnv silentReplies) (initialState quick [naval, elon])
                   (emits (roundStartEvents (orchestratorOf (scriptedEnv silentReplies)
                                               (exampleRequest quick [naval, elon])) 0)
                      (emit (costEstimateEvent (orchestratorOf (scriptedEnv silentReplies)
                                                  (exampleRequest quick [naval, elon]))) noWorld))))) = 0
   \<and> snd (snd (runCouncilDebate
                (orchestratorOf (scriptedEnv silentReplies) (exampleRequest quick [naval, elon]))
                (scriptedEnv silentReplies) (question (exampleRequest quick [naval, elon])) noWorld))
       = Inl (InsufficientResponses 0)
   \<and> finalAnswers (POST_stream (scriptedEnv silentReplies) (exampleRequest quick [naval, elon])) = 0"
proof -
  let ?env = "scriptedEnv failingReplies"
  let ?rq = "exampleRequest standard [naval, elon, larry]"
  let ?orch = "orchestratorOf ?env ?rq"
  let ?st = "initialState standard [naval, elon, larry]"
  let ?w = "emit (costEstimateEvent ?orch) noWorld"
  let ?v = "emits (roundStartEvents ?orch 0) ?w"
  let ?r = "runDebateRound ?orch ?env ?st ?v"
  have "researchStep ?orch ?env (question ?rq) (createInitialState ?orch (question ?rq)) ?w = (?w, ?st)"
    by (simp add: researchStep_def shouldActivateResearch_def example_defs)
  then have h1: "roundBegins ?orch ?env (question ?rq) 0 ?st ?w"
    by (rule first_round)
  have h2: "0 < this_maxRounds ?orch"
    by (simp add: example_defs)
  have h4: "?r = (fst ?r, fst (snd ?r), snd (snd ?r))"
    by simp
  have n: "responded ?env (roundTurns ?orch ?v (fst ?r)) = 1"
    by (simp add: responded_def roundTurns_def turnsOf_def failingReplies_def eval_defs)
  then have h5: "responded ?env (roundTurns ?orch ?v (fst ?r)) < 2"
    by simp
  note first = insufficient_round_aborts[OF h1 h2 refl h4 h5, unfolded n]
  have a1: "snd (snd (runCouncilDebate ?orch ?env (question ?rq) noWorld)) = Inl (InsufficientResponses 1)"
    using first by simp
  have a2: "finalAnswers (POST_stream ?env ?rq) = 0"
    using first by blast
  have a3: "length (filter (\<lambda>ev. ev = fatalEvent ?env (InsufficientResponses 1)) (POST_stream ?env ?rq)) = 1"
    using first by blast
  let ?env' = "scriptedEnv silentReplies"
  let ?rq' = "exampleRequest quick [naval, elon]"
  let ?orch' = "orchestratorOf ?env' ?rq'"
  let ?st' = "initialState quick [naval, elon]"
  let ?w' = "emit (costEstimateEvent ?orch') noWorld"
  let ?v' = "emits (roundStartEvents ?orch' 0) ?w'"
  let ?r' = "runDebateRound ?orch' ?env' ?st' ?v'"
  have "researchStep ?orch' ?env' (question ?rq') (createInitialState ?orch' (question ?rq')) ?w' = (?w', ?st')"
    by (simp add: researchStep_def shouldActivateResearch_def example_defs)
  then have k1: "roundBegins ?orch' ?env' (question ?rq') 0 ?st' ?w'"
    by (rule first_round)
  have k2: "0 < this_maxRounds ?orch'"
    by (simp add: example_defs)
  have k4: "?r' = (fst ?r', fst (snd ?r'), snd (snd ?r'))"
    by simp
  have n': "responded ?env' (roundTurns ?orch' ?v' (fst ?r')) = 0"
    by (simp add: responded_def roundTurns_def turnsOf_def silentReplies_def eval_defs)
  then have k5: "responded ?env' (roundTurns ?orch' ?v' (fst ?r')) < 2"
    by simp
  note second = insufficient_round_aborts[OF k1 k2 refl k4 k5, unfolded n']
  have b1: "snd (snd (runCouncilDebate ?orch' ?env' (question ?rq') noWorld)) = Inl (InsufficientResponses 0)"
    using second by simp
  have b2: "finalAnswers (POST_stream ?env' ?rq') = 0"
    using second by blast
  show ?thesis
    using h1 n a1 a2 a3 n' b1 b2 by blast
qed

text \<open>
  C3, as amended. For every request, whatever its advisors, the session's \<open>maxRounds\<close> is
  1, 2 or 3 for the mode quick, standard or deep; the stream announces at most that many
  rounds, and the session sends at most that many requests for each entry of the
  advisors. Inside the loop consensus is never checked before round 2: every
  \<open>consensus_check\<close> event of the stream comes after the announcement of at least two
  rounds; every request of the moderator sent inside the loop comes after the requests of
  two whole rounds of advisors; and when the loop ends the debate early, the only way in
  which \<open>consensusReached\<close> is set, at least two rounds have been announced and a
  \<open>consensus_check\<close> event has been emitted. When the rounds are exhausted without an early
  end, all \<open>maxRounds\<close> rounds having run, the code after the loop invokes
  \<open>analyzeConsensus\<close> once more, whatever the number of rounds: after the event of the
  maximum of rounds it sends the request of the analyzer when at least three advisors
  have a response, followed by at most one more request, that of the final answer.
\<close>

theorem rounds_bounded_checks_gated:
  assumes "sessionLoop env rq = (w3, st2, x)"
    and "runCouncilDebate (orchestratorOf env rq) env (question rq) noWorld = (w', st', r)"
  shows "maxRounds st' = (case mode rq of quick \<Rightarrow> 1 | standard \<Rightarrow> 2 | deep \<Rightarrow> 3)
   \<and> roundsStarted (POST_stream env rq) \<le> maxRounds st'
   \<and> length (filter stream (calls w')) \<le> maxRounds st' * length (advisors rq)
   \<and> (\<forall>i<length (POST_stream env rq).
         type (POST_stream env rq ! i) = consensus_check
         \<longrightarrow> 2 \<le> roundsStarted (take i (POST_stream env rq)))
   \<and> (\<forall>i<length (calls w3).
         \<not> stream (calls w3 ! i)
         \<longrightarrow> 2 * length (advisors rq) \<le> length (filter stream (take i (calls w3))))
   \<and> (consensusReached st' \<or> (\<exists>a. x = Some (Returned a)) \<longrightarrow>
         2 \<le> roundsStarted (events w3) \<and> (\<exists>e\<in>set (events w3). type e = consensus_check)
         \<and> consensusReached st' \<and> (\<exists>a. x = Some (Returned a) \<and> r = Inr a)
         \<and> w' = w3 \<and> st' = st2)
   \<and> (x = None \<longrightarrow>
         roundsStarted (events w3) = maxRounds st' \<and> currentRound st2 = maxRounds st'
         \<and> (\<exists>S F. events w' = events w3 @ maxRoundsEvent # S
                \<and> calls w' = calls w3
                     @ (if length (filter (hasResponse st2) (advisors rq)) < 3 then []
                        else [analysisRequest (orchestratorOf env rq) st2]) @ F
                \<and> length F \<le> 1 \<and> (\<forall>q\<in>set F. \<not> stream q)))"
proof -
  let ?orch = "orchestratorOf env rq"
  have run: "afterRounds ?orch env (w3, st2, x) = (w', st', r)"
    using run_sessionLoop[of env rq] assms by simp
  from sessionLoop_facts(1)[OF assms(1)] obtain L where
    rsL: "roundsStarted (events w3) = roundsStarted L" and sub: "set L \<subseteq> set (events w3)"
    and lt: "loopTrace ?orch 0 x L"
    by blast
  note mod = sessionLoop_facts(2)[OF assms(1)]
  note cons = sessionLoop_facts(3)[OF assms(1)]
  from session_facts[OF assms(2)] have "maxRounds st' = this_maxRounds ?orch"
    by blast
  then have mr: "maxRounds st' = modeMap (mode rq)"
    by (simp add: maxRounds_orchestratorOf)
  have c1: "maxRounds st' = (case mode rq of quick \<Rightarrow> 1 | standard \<Rightarrow> 2 | deep \<Rightarrow> 3)"
    by (cases "mode rq") (simp_all add: mr)
  have c2: "roundsStarted (POST_stream env rq) \<le> maxRounds st'"
    using POST_stream_facts(2)[OF assms(2)] by (simp add: mr maxRounds_orchestratorOf)
  have after: "\<exists>P. calls w' = calls w3 @ P \<and> (\<forall>q\<in>set P. \<not> stream q)"
  proof (cases x)
    case None
    with run have "synthesize ?orch env st2 w3 = (w', st', r)"
      by (simp add: afterRounds_def)
    from synthesize_calls[OF this] obtain F where
      "calls w' = calls w3 @ (if length (latestResponses ?orch st2) < 3 then []
                             else [analysisRequest ?orch st2]) @ F"
      "\<forall>q\<in>set F. \<not> stream q"
      by blast
    then show ?thesis
      by (intro exI[of _ "(if length (latestResponses ?orch st2) < 3 then []
                           else [analysisRequest ?orch st2]) @ F"])
         (simp add: analysisRequest_def)
  next
    case (Some exit)
    with run have "w' = w3"
      by (cases exit) (simp_all add: afterRounds_def)
    then show ?thesis by simp
  qed
  then obtain P where "calls w' = calls w3 @ P" "filter stream P = []"
    by (auto simp: filter_empty_conv)
  then have "filter stream (calls w') = filter stream (calls w3)"
    by simp
  then have c2': "length (filter stream (calls w')) \<le> maxRounds st' * length (advisors rq)"
    using sessionLoop_facts(5)[OF assms(1)] by (simp add: mr)
  have c3: "\<forall>i<length (POST_stream env rq).
         type (POST_stream env rq ! i) = consensus_check
         \<longrightarrow> 2 \<le> roundsStarted (take i (POST_stream env rq))"
    using checksOK_index[OF POST_stream_facts(3)[OF assms(2)]] by blast
  have c4: "\<forall>i<length (calls w3).
         \<not> stream (calls w3 ! i)
         \<longrightarrow> 2 * length (advisors rq) \<le> length (filter stream (take i (calls w3)))"
    using moderatorAfter_index[OF mod] by blast
  have c5: "consensusReached st' \<or> (\<exists>a. x = Some (Returned a)) \<longrightarrow>
         2 \<le> roundsStarted (events w3) \<and> (\<exists>e\<in>set (events w3). type e = consensus_check)
         \<and> consensusReached st' \<and> (\<exists>a. x = Some (Returned a) \<and> r = Inr a)
         \<and> w' = w3 \<and> st' = st2"
  proof
    assume early: "consensusReached st' \<or> (\<exists>a. x = Some (Returned a))"
    have "\<exists>a. x = Some (Returned a)"
    proof (cases x)
      case None
      with run have "synthesize ?orch env st2 w3 = (w', st', r)"
        by (simp add: afterRounds_def)
      from synthesize_consensusReached[OF this] cons None early show ?thesis
        by simp
    next
      case (Some exit)
      show ?thesis
      proof (cases exit)
        case (Returned a)
        with Some show ?thesis by simp
      next
        case (Aborted e)
        with Some run have "st' = st2" by (simp add: afterRounds_def)
        with cons early show ?thesis by simp
      qed
    qed
    then obtain a where x: "x = Some (Returned a)" by blast
    with run have res: "w' = w3" "st' = st2" "r = Inr a"
      by (simp_all add: afterRounds_def)
    from loopTrace_returned[OF lt x] have "2 \<le> roundsStarted L" "\<exists>e\<in>set L. type e = consensus_check"
      by simp_all
    then have "2 \<le> roundsStarted (events w3)" "\<exists>e\<in>set (events w3). type e = consensus_check"
      using rsL sub by auto
    then show "2 \<le> roundsStarted (events w3) \<and> (\<exists>e\<in>set (events w3). type e = consensus_check)
         \<and> consensusReached st' \<and> (\<exists>a. x = Some (Returned a) \<and> r = Inr a)
         \<and> w' = w3 \<and> st' = st2"
      using res x cons by simp
  qed
  have c6: "x = None \<longrightarrow>
         roundsStarted (events w3) = maxRounds st' \<and> currentRound st2 = maxRounds st'
         \<and> (\<exists>S F. events w' = events w3 @ maxRoundsEvent # S
                \<and> calls w' = calls w3
                     @ (if length (filter (hasResponse st2) (advisors rq)) < 3 then []
                        else [analysisRequest (orchestratorOf env rq) st2]) @ F
                \<and> length F \<le> 1 \<and> (\<forall>q\<in>set F. \<not> stream q))"
  proof
    assume x: "x = None"
    with run have sy: "synthesize ?orch env st2 w3 = (w', st', r)"
      by (simp add: afterRounds_def)
    from synthesize_trace[OF sy] obtain S where "events w' = events w3 @ S" "synTail None r S"
      by blast
    then have ev: "\<exists>S. events w' = events w3 @ maxRoundsEvent # S"
      by (auto simp: synTail_def split: sum.splits)
    from synthesize_calls[OF sy] obtain F where
      "calls w' = calls w3
         @ (if length (filter (hasResponse st2) (advisors rq)) < 3 then []
            else [analysisRequest ?orch st2]) @ F"
      "length F \<le> 1" "\<forall>q\<in>set F. \<not> stream q"
      by (auto simp: length_latestResponses selectedAdvisors_orchestratorOf)
    with ev have "\<exists>S F. events w' = events w3 @ maxRoundsEvent # S
                \<and> calls w' = calls w3
                     @ (if length (filter (hasResponse st2) (advisors rq)) < 3 then []
                        else [analysisRequest (orchestratorOf env rq) st2]) @ F
                \<and> length F \<le> 1 \<and> (\<forall>q\<in>set F. \<not> stream q)"
      by blast
    moreover have "roundsStarted (events w3) = maxRounds st'"
      using loopTrace_exhausted[OF lt x] by (simp add: rsL mr maxRounds_orchestratorOf)
    moreover have "currentRound st2 = maxRounds st'"
      using sessionLoop_facts(4)[OF assms(1) x] by (simp add: mr)
    ultimately show "roundsStarted (events w3) = maxRounds st' \<and> currentRound st2 = maxRounds st'
         \<and> (\<exists>S F. events w' = events w3 @ maxRoundsEvent # S
                \<and> calls w' = calls w3
                     @ (if length (filter (hasResponse st2) (advisors rq)) < 3 then []
                        else [analysisRequest (orchestratorOf env rq) st2]) @ F
                \<and> length F \<le> 1 \<and> (\<forall>q\<in>set F. \<not> stream q))"
      by blast
  qed
  show ?thesis
    using c1 c2 c2' c3 c4 c5 c6 by blast
qed

text \<open>
  A session of two rounds with three advisors that ends early: its \<open>consensus_check\<close>
  event is the event 30 of its stream, and the seventh request of its loop is the first
  of the moderator. A session in quick mode with three advisors: its loop is exhausted
  after one round, and the request sent next is that of the analyzer.
\<close>

theorem rounds_bounded_checks_gated_witness:
  "snd (snd (sessionLoop (scriptedEnv standardReplies) (exampleRequest standard [naval, elon, larry])))
     = Some (Returned ''F'')
   \<and> 2 \<le> roundsStarted (events (fst (sessionLoop (scriptedEnv standardReplies)
                                          (exampleRequest standard [naval, elon, larry]))))
   \<and> consensusReached (fst (snd (runCouncilDebate
         (orchestratorOf (scriptedEnv standardReplies) (exampleRequest standard [naval, elon, larry]))
         (scriptedEnv standardReplies) (question (exampleRequest standard [naval, elon, larry])) noWorld)))
   \<and> 30 < length (POST_stream (scriptedEnv standardReplies) (exampleRequest standard [naval, elon, larry]))
   \<and> type (POST_stream (scriptedEnv standardReplies) (exampleRequest standard [naval, elon, larry]) ! 30)
       = consensus_check
   \<and> 2 \<le> roundsStarted (take 30 (POST_stream (scriptedEnv standardReplies)
                                     (exampleRequest standard [naval, elon, larry])))
   \<and> maxRounds (fst (snd (runCouncilDebate
         (orchestratorOf (scriptedEnv standardReplies) (exampleRequest standard [naval, elon, larry]))
         (scriptedEnv standardReplies) (question (exampleRequest standard [naval, elon, larry])) noWorld)))
       = 2
   \<and> roundsStarted (POST_stream (scriptedEnv standardReplies)
                      (exampleRequest standard [naval, elon, larry])) \<le> 2
   \<and> map stream (calls (fst (sessionLoop (scriptedEnv standardReplies)
                                 (exampleRequest standard [naval, elon, larry]))))
       = [True, True, True, True, True, True, False, False]
   \<and> 6 \<le> length (filter stream (take 6 (calls (fst (sessionLoop (scriptedEnv standardReplies)
                                                        (exampleRequest standard [naval, elon, larry]))))))
   \<and> snd (snd (sessionLoop (scriptedEnv quickReplies) (exampleRequest quick [naval, elon, larry]))) = None
   \<and> roundsStarted (events (fst (sessionLoop (scriptedEnv quickReplies)
                                     (exampleRequest quick [naval, elon, larry])))) = 1
   \<and> currentRound (fst (snd (sessionLoop (scriptedEnv quickReplies)
                                 (exampleRequest quick [naval, elon, larry])))) = 1
   \<and> calls (fst (runCouncilDebate
         (orchestratorOf (scriptedEnv quickReplies) (exampleRequest quick [naval, elon, larry]))
         (scriptedEnv quickReplies) (question (exampleRequest quick [naval, elon, larry])) noWorld))
       ! length (calls (fst (sessionLoop (scriptedEnv quickReplies)
                               (exampleRequest quick [naval, elon, larry]))))
       = analysisRequest
           (orchestratorOf (scriptedEnv quickReplies) (exampleRequest quick [naval, elon, larry]))
           (fst (snd (sessionLoop (scriptedEnv quickReplies) (exampleRequest quick [naval, elon, larry]))))"
proof -
  let ?envA = "scriptedEnv standardReplies"
  let ?rqA = "exampleRequest standard [naval, elon, larry]"
  let ?loopA = "sessionLoop ?envA ?rqA"
  let ?runA = "runCouncilDebate (orchestratorOf ?envA ?rqA) ?envA (question ?rqA) noWorld"
  let ?evs = "POST_stream ?envA ?rqA"
  have lA: "?loopA = (fst ?loopA, fst (snd ?loopA), snd (snd ?loopA))" by simp
  have rA: "?runA = (fst ?runA, fst (snd ?runA), snd (snd ?runA))" by simp
  note thA = rounds_bounded_checks_gated[OF lA rA]
  have "(case ?loopA of (w, st, x) \<Rightarrow> (map stream (calls w), x))
      = ([True, True, True, True, True, True, False, False], Some (Returned ''F''))"
    by (simp add: sessionLoop_unfold eval_defs)
  then have sA: "map stream (calls (fst ?loopA)) = [True, True, True, True, True, True, False, False]"
    and xA: "snd (snd ?loopA) = Some (Returned ''F'')"
    by (simp_all add: split_def)
  have len: "length (map type ?evs) = 34"
    by (simp only: standard_stream_types) simp
  then have i: "30 < length ?evs" by simp
  have "map type ?evs ! 30 = consensus_check"
    by (simp only: standard_stream_types) simp
  then have t: "type (?evs ! 30) = consensus_check"
    using i by simp
  have a1: "2 \<le> roundsStarted (events (fst ?loopA))" "consensusReached (fst (snd ?runA))"
    using thA xA by blast+
  have a2: "2 \<le> roundsStarted (take 30 ?evs)"
    using thA i t by blast
  have a0: "maxRounds (fst (snd ?runA)) = 2"
    using thA by (simp add: exampleRequest_def)
  have "roundsStarted ?evs \<le> maxRounds (fst (snd ?runA))"
    using thA by blast
  then have a3: "roundsStarted ?evs \<le> 2"
    by (simp only: a0)
  have "length (map stream (calls (fst ?loopA))) = 8" "\<not> map stream (calls (fst ?loopA)) ! 6"
    by (simp_all only: sA) simp_all
  then have j: "6 < length (calls (fst ?loopA))" "\<not> stream (calls (fst ?loopA) ! 6)"
    by simp_all
  have "2 * length (advisors ?rqA) \<le> length (filter stream (take 6 (calls (fst ?loopA))))"
    using thA j by blast
  then have a4: "6 \<le> length (filter stream (take 6 (calls (fst ?loopA))))"
    by (simp add: exampleRequest_def)
  let ?envB = "scriptedEnv quickReplies"
  let ?rqB = "exampleRequest quick [naval, elon, larry]"
  let ?loopB = "sessionLoop ?envB ?rqB"
  let ?runB = "runCouncilDebate (orchestratorOf ?envB ?rqB) ?envB (question ?rqB) noWorld"
  have lB: "?loopB = (fst ?loopB, fst (snd ?loopB), snd (snd ?loopB))" by simp
  have rB: "?runB = (fst ?runB, fst (snd ?runB), snd (snd ?runB))" by simp
  note thB = rounds_bounded_checks_gated[OF lB rB]
  have "(case ?loopB of (w, st, x) \<Rightarrow> (length (filter (hasResponse st) [naval, elon, larry]), x))
      = (3, None)"
    by (simp add: sessionLoop_unfold quickReplies_def eval_defs hasResponse_def)
  then have hB: "length (filter (hasResponse (fst (snd ?loopB))) (advisors ?rqB)) = 3"
    and xB: "snd (snd ?loopB) = None"
    by (simp_all add: split_def exampleRequest_def)
  have b0: "maxRounds (fst (snd ?runB)) = 1"
    using thB by (simp add: exampleRequest_def)
  have "roundsStarted (events (fst ?loopB)) = maxRounds (fst (snd ?runB))"
    "currentRound (fst (snd ?loopB)) = maxRounds (fst (snd ?runB))"
    using thB xB by blast+
  then have b1: "roundsStarted (events (fst ?loopB)) = 1" "currentRound (fst (snd ?loopB)) = 1"
    by (simp_all only: b0)
  from thB xB obtain F where
    "calls (fst ?runB) = calls (fst ?loopB)
       @ (if length (filter (hasResponse (fst (snd ?loopB))) (advisors ?rqB)) < 3 then []
          else [analysisRequest (orchestratorOf ?envB ?rqB) (fst (snd ?loopB))]) @ F"
    by blast
  then have "calls (fst ?runB)
      = calls (fst ?loopB) @ [analysisRequest (orchestratorOf ?envB ?rqB) (fst (snd ?loopB))] @ F"
    by (simp only: hB) simp
  then have b2: "calls (fst ?runB) ! length (calls (fst ?loopB))
      = analysisRequest (orchestratorOf ?envB ?rqB) (fst (snd ?loopB))"
    by (simp only: nth_append_length append_Cons)
  show ?thesis
    using xA a1 i t a2 a0 a3 sA a4 xB b1 b2 by blast
qed

text \<open>
  C3 as stated fails: in quick mode, with three advisors that all answer, the fourth
  request of the session is the request of \<open>analyzeConsensus\<close>, sent by the code after
  the loop while \<open>currentRound\<close> is 1. No \<open>consensus_check\<close> event announces it.
\<close>

theorem analysis_after_first_round:
  "calls (fst quickSession) ! 3 =
     \<lparr>system_of = moderator_key, max_tokens = 1000,
      prompt = analysisPrompt (exampleOrchestrator quick [naval, elon, larry]) (fst (snd quickSession)),
      stream = False\<rparr>
   \<and> currentRound (fst (snd quickSession)) = 1
   \<and> map type (events (fst quickSession)) =
       [cost_estimate, status, moderator_analysis,
        status, agent_start, agent_response, agent_complete,
        status, agent_start, agent_response, agent_complete,
        status, agent_start, agent_response, agent_complete,
        moderator_analysis, final_answer]"
  by (simp add: quickSession_def eval_defs analysisPrompt_def responsesBlock_def)




text \<open>
  C5. When fewer than three entries of the selected advisors have a latest response
  that is not empty, \<open>analyzeConsensus\<close> returns the default verdict (no consensus,
  agreement level 0, no agreements, no disagreements) and leaves the world as it was:
  no request is sent.
\<close>

theorem analyzeConsensus_short_circuit:
  assumes "length (filter (hasResponse state) (this_selectedAdvisors this)) < 3"
  shows "analyzeConsensus this env state w =
           (w, Inr \<lparr>ca_consensusReached = False, agreementLevel = 0, agreements = [],
                    disagreements = [], majorityView = None, minorityViews = None\<rparr>)"
  using assms by (simp add: analyzeConsensus_def length_latestResponses defaultAnalysis_def)

text \<open>A state in which two advisors are selected and have answered.\<close>

theorem analyzeConsensus_short_circuit_witness:
  "length (filter (hasResponse (answeredState standard [naval, elon]))
                  (this_selectedAdvisors (exampleOrchestrator standard [naval, elon]))) < 3
   \<and> analyzeConsensus (exampleOrchestrator standard [naval, elon])
         (scriptedEnv [Replied [replyAbove100]]) (answeredState standard [naval, elon]) noWorld =
       (noWorld, Inr \<lparr>ca_consensusReached = False, agreementLevel = 0, agreements = [],
                      disagreements = [], majorityView = None, minorityViews = None\<rparr>)"
proof -
  have h: "length (filter (hasResponse (answeredState standard [naval, elon]))
                  (this_selectedAdvisors (exampleOrchestrator standard [naval, elon]))) < 3"
    by (simp add: example_defs hasResponse_def)
  show ?thesis
    using h analyzeConsensus_short_circuit[OF h] by simp
qed

text \<open>
  C6. A reply of the moderator without the field of the agreements. The expression
  for that field also matches inside the label \<open>DISAGREEMENTS:\<close>, so the agreements of
  the verdict are the items of the disagreements, not the empty list.
\<close>

theorem missing_agreements_takes_disagreements:
  "analyzeConsensus (exampleOrchestrator standard [naval, elon, larry])
       (scriptedEnv [Replied [replyWithoutAgreements]])
       (answeredState standard [naval, elon, larry]) \<lparr>events = [], calls = []\<rparr> =
     (\<lparr>events = [], calls = [\<lparr>system_of = moderator_key, max_tokens = 1000,
          prompt = analysisPrompt (exampleOrchestrator standard [naval, elon, larry])
                     (answeredState standard [naval, elon, larry]), stream = False\<rparr>]\<rparr>,
      Inr \<lparr>ca_consensusReached = False, agreementLevel = 1 / 5, agreements = [''pricing''],
            disagreements = [''pricing''], majorityView = Some ''wait'', minorityViews = None\<rparr>)"
  by (simp add: example_defs analysis_defs latestResponse_def call_llm_def)

text \<open>
  C7, as amended. A turn whose call throws (a time-out is such a throw) ends with one
  \<open>error\<close> event that names the advisor, after the text deltas already forwarded; a
  turn whose response is empty ends with \<open>agent_complete\<close> and emits no \<open>error\<close> event.
  Either way the state and the count of successful responses stay as they were, and
  the round goes on: it starts the turn of every selected advisor, in order.
\<close>

theorem turn_failure_contained:
  "(turnReply this env a w st = Failed chunks e \<longrightarrow>
      advisorTurn this env a (w, st, n)
        = (\<lparr>events = events w @ turnOpening a @ map (chunkEvent a) chunks
                      @ [failed_event a (provider_thrown e)],
            calls = calls w @ [advisorRequest this st a]\<rparr>, st, n))
   \<and> (turnReply this env a w st = Replied chunks \<and> concat chunks = [] \<longrightarrow>
      advisorTurn this env a (w, st, n)
        = (\<lparr>events = events w @ turnOpening a @ map (chunkEvent a) chunks
                      @ [event agent_complete (Some a) None],
            calls = calls w @ [advisorRequest this st a]\<rparr>, st, n))
   \<and> map agent (filter (\<lambda>ev. type ev = agent_start)
                   (drop (length (events w)) (events (fst (runDebateRound this env st w)))))
       = map Some (this_selectedAdvisors this)"
proof -
  obtain w1 shared r1 where rd: "runDebateRound this env st w = (w1, shared, r1)"
    by (metis prod_cases3)
  from runDebateRound_trace[OF rd] obtain E where
    "events w1 = events w @ E" "roundTrace (this_selectedAdvisors this) E"
    by blast
  then have "map agent (filter (\<lambda>ev. type ev = agent_start)
                   (drop (length (events w)) (events (fst (runDebateRound this env st w)))))
       = map Some (this_selectedAdvisors this)"
    using roundTrace_starts[of "this_selectedAdvisors this" E] by (simp add: rd)
  then show ?thesis
    using advisorTurn_Failed[of this env a w st chunks e n]
      advisorTurn_empty[of this env a w st chunks n]
    by (simp add: afterTurn_def)
qed

text \<open>
  A call that times out after a first text delta, and a call that returns no text.
\<close>

theorem turn_failure_contained_witness:
  "turnReply (exampleOrchestrator standard [naval, elon, larry])
      (scriptedEnv [Failed [''par''] (Some ''Request timeout'')]) naval noWorld
      (initialState standard [naval, elon, larry])
     = Failed [''par''] (Some ''Request timeout'')
   \<and> snd (advisorTurn (exampleOrchestrator standard [naval, elon, larry])
            (scriptedEnv [Failed [''par''] (Some ''Request timeout'')]) naval
            (noWorld, initialState standard [naval, elon, larry], 0))
     = (initialState standard [naval, elon, larry], 0)
   \<and> turnReply (exampleOrchestrator standard [naval, elon, larry])
      (scriptedEnv [Replied []]) naval noWorld (initialState standard [naval, elon, larry])
     = Replied []
   \<and> snd (advisorTurn (exampleOrchestrator standard [naval, elon, larry])
            (scriptedEnv [Replied []]) naval
            (noWorld, initialState standard [naval, elon, larry], 0))
     = (initialState standard [naval, elon, larry], 0)"
proof -
  let ?orch = "exampleOrchestrator standard [naval, elon, larry]"
  let ?st = "initialState standard [naval, elon, larry]"
  have h1: "turnReply ?orch (scriptedEnv [Failed [''par''] (Some ''Request timeout'')]) naval noWorld ?st
     = Failed [''par''] (Some ''Request timeout'')"
    by (simp add: turnReply_def scriptedEnv_def noWorld_def)
  have h2: "turnReply ?orch (scriptedEnv [Replied []]) naval noWorld ?st = Replied []"
    by (simp add: turnReply_def scriptedEnv_def noWorld_def)
  show ?thesis
    using turn_failure_contained[of ?orch "scriptedEnv [Failed [''par''] (Some ''Request timeout'')]"
        naval noWorld ?st "[''par'']" "Some ''Request timeout''" 0]
      turn_failure_contained[of ?orch "scriptedEnv [Replied []]" naval noWorld ?st "[]" None 0]
      h1 h2
    by simp
qed

text \<open>
  C7 as stated fails: a round in which the response of the first advisor is empty emits
  no \<open>error\<close> event.
\<close>

theorem empty_response_emits_no_error:
  "map type (events (fst (runDebateRound (exampleOrchestrator standard [naval, elon, larry])
       (scriptedEnv [Replied [], Replied [''B''], Replied [''C'']])
       (initialState standard [naval, elon, larry]) noWorld)))
   = [status, agent_start, agent_complete,
      status, agent_start, agent_response, agent_complete,
      status, agent_start, agent_response, agent_complete]"
  by (simp add: eval_defs)

text \<open>
  C8. A reply of the moderator with the agreement number 150: the agreement level of
  the verdict is 3/2, above 1.
\<close>

theorem agreementLevel_above_one:
  "analyzeConsensus (exampleOrchestrator standard [naval, elon, larry])
       (scriptedEnv [Replied [replyAbove100]])
       (answeredState standard [naval, elon, larry]) \<lparr>events = [], calls = []\<rparr> =
     (\<lparr>events = [], calls = [\<lparr>system_of = moderator_key, max_tokens = 1000,
          prompt = analysisPrompt (exampleOrchestrator standard [naval, elon, larry])
                     (answeredState standard [naval, elon, larry]), stream = False\<rparr>]\<rparr>,
      Inr \<lparr>ca_consensusReached = True, agreementLevel = 3 / 2, agreements = [],
            disagreements = [], majorityView = None, minorityViews = None\<rparr>)"
  by (simp add: example_defs analysis_defs latestResponse_def call_llm_def)

text \<open>
  C9. The stream of every session is in order: the events of a turn, from
  \<open>agent_start\<close> over the \<open>agent_response\<close> events to the closing event, are not
  interleaved with the events of another turn, and after a \<open>consensus_check\<close> event no
  event of a turn follows before the next round is announced. Within a round the turns
  begin in the order of the selected advisors.
\<close>

theorem stream_is_ordered:
  "phaseRun Idle (POST_stream env rq) \<noteq> None
   \<and> map agent (filter (\<lambda>e. type e = agent_start)
                   (drop (length (events w)) (events (fst (runDebateRound this env st w)))))
       = map Some (this_selectedAdvisors this)"
proof -
  obtain w' st' r where
    run: "runCouncilDebate (orchestratorOf env rq) env (question rq) noWorld = (w', st', r)"
    by (metis prod_cases3)
  obtain w1 shared r1 where rd: "runDebateRound this env st w = (w1, shared, r1)"
    by (metis prod_cases3)
  from runDebateRound_trace[OF rd] obtain E where
    "events w1 = events w @ E" "roundTrace (this_selectedAdvisors this) E"
    by blast
  then have "map agent (filter (\<lambda>e. type e = agent_start)
                   (drop (length (events w)) (events (fst (runDebateRound this env st w)))))
       = map Some (this_selectedAdvisors this)"
    using roundTrace_starts[of "this_selectedAdvisors this" E] by (simp add: rd)
  then show ?thesis
    using POST_stream_facts(1)[OF run] by blast
qed

text \<open>The session of two rounds.\<close>

theorem stream_is_ordered_witness:
  "phaseRun Idle (POST_stream (scriptedEnv standardReplies)
                    (exampleRequest standard [naval, elon, larry])) \<noteq> None"
  using stream_is_ordered[of "scriptedEnv standardReplies" "exampleRequest standard [naval, elon, larry]"]
  by blast

text \<open>
  C10. The state that \<open>runDebateRound\<close> returns has \<open>currentRound\<close> incremented by one
  and all other fields but \<open>agentResponses\<close> as in the input. To the list of each
  advisor it appends the responses of that advisor's turns of the round, one for each
  turn that gives a response: at most as many as the advisor occurs among the selected
  advisors, so at most one when these are distinct.
\<close>

theorem round_frame:
  assumes "snd (snd (runDebateRound this env st w)) = Inr st'"
  shows "currentRound st' = currentRound st + 1
     \<and> messages st' = messages st \<and> maxRounds st' = maxRounds st
     \<and> consensusReached st' = consensusReached st
     \<and> needsClarification st' = needsClarification st
     \<and> clarificationQuestion st' = clarificationQuestion st
     \<and> finalAnswer st' = finalAnswer st \<and> researchResults st' = researchResults st
     \<and> (\<exists>R. calls (fst (runDebateRound this env st w)) = calls w @ R
            \<and> length R = length (this_selectedAdvisors this)
            \<and> (\<forall>a. agentResponses st' a =
                     map_option (\<lambda>rs. rs @ appendedBy env a
                                    (turnsOf (this_selectedAdvisors this) (length (calls w)) R))
                       (agentResponses st a)
                   \<and> length (appendedBy env a
                               (turnsOf (this_selectedAdvisors this) (length (calls w)) R))
                       \<le> count_list (this_selectedAdvisors this) a
                   \<and> (distinct (this_selectedAdvisors this) \<longrightarrow>
                        length (appendedBy env a
                                  (turnsOf (this_selectedAdvisors this) (length (calls w)) R)) \<le> 1)))"
proof -
  obtain w' shared r where rd: "runDebateRound this env st w = (w', shared, r)"
    by (metis prod_cases3)
  with assms have r: "r = Inr st'" by simp
  from runDebateRound_trace[OF rd] obtain R where
    ca: "calls w' = calls w @ R" and len: "length R = length (this_selectedAdvisors this)"
    and resp: "\<And>b. shared b =
                  map_option (\<lambda>rs. rs @ appendedBy env b
                                 (turnsOf (this_selectedAdvisors this) (length (calls w)) R))
                    (agentResponses st b)"
    and res: "r = (if successes env st (turnsOf (this_selectedAdvisors this) (length (calls w)) R) < 2
                  then Inl (InsufficientResponses
                              (successes env st (turnsOf (this_selectedAdvisors this) (length (calls w)) R)))
                  else Inr (st\<lparr>currentRound := currentRound st + 1, agentResponses := shared\<rparr>))"
    by blast
  from res r have st': "st' = st\<lparr>currentRound := currentRound st + 1, agentResponses := shared\<rparr>"
    by (simp split: if_splits)
  have bound: "length (appendedBy env a (turnsOf (this_selectedAdvisors this) (length (calls w)) R))
                 \<le> count_list (this_selectedAdvisors this) a" for a
    unfolding turnsOf_def by (rule length_appendedBy)
  have one: "distinct (this_selectedAdvisors this) \<Longrightarrow>
      length (appendedBy env a (turnsOf (this_selectedAdvisors this) (length (calls w)) R)) \<le> 1" for a
    using bound[of a] count_list_distinct[of "this_selectedAdvisors this" a] by simp
  have "\<forall>a. agentResponses st' a =
                     map_option (\<lambda>rs. rs @ appendedBy env a
                                    (turnsOf (this_selectedAdvisors this) (length (calls w)) R))
                       (agentResponses st a)
                   \<and> length (appendedBy env a
                               (turnsOf (this_selectedAdvisors this) (length (calls w)) R))
                       \<le> count_list (this_selectedAdvisors this) a
                   \<and> (distinct (this_selectedAdvisors this) \<longrightarrow>
                        length (appendedBy env a
                                  (turnsOf (this_selectedAdvisors this) (length (calls w)) R)) \<le> 1)"
    using resp bound one by (simp add: st')
  then have "\<exists>R. calls (fst (runDebateRound this env st w)) = calls w @ R
            \<and> length R = length (this_selectedAdvisors this)
            \<and> (\<forall>a. agentResponses st' a =
                     map_option (\<lambda>rs. rs @ appendedBy env a
                                    (turnsOf (this_selectedAdvisors this) (length (calls w)) R))
                       (agentResponses st a)
                   \<and> length (appendedBy env a
                               (turnsOf (this_selectedAdvisors this) (length (calls w)) R))
                       \<le> count_list (this_selectedAdvisors this) a
                   \<and> (distinct (this_selectedAdvisors this) \<longrightarrow>
                        length (appendedBy env a
                                  (turnsOf (this_selectedAdvisors this) (length (calls w)) R)) \<le> 1))"
    using ca len by (intro exI[of _ R]) (simp add: rd)
  then show ?thesis
    by (simp add: st')
qed

text \<open>The first round of a session with two advisors.\<close>

theorem round_frame_witness:
  "snd (snd (runDebateRound (exampleOrchestrator standard [naval, elon])
               (scriptedEnv [Replied [''A''], Replied [''B'']])
               (initialState standard [naval, elon]) noWorld)) = Inr afterFirstRound
   \<and> distinct (this_selectedAdvisors (exampleOrchestrator standard [naval, elon]))
   \<and> currentRound afterFirstRound = currentRound (initialState standard [naval, elon]) + 1
   \<and> messages afterFirstRound = messages (initialState standard [naval, elon])
   \<and> finalAnswer afterFirstRound = finalAnswer (initialState standard [naval, elon])"
proof -
  have h: "snd (snd (runDebateRound (exampleOrchestrator standard [naval, elon])
               (scriptedEnv [Replied [''A''], Replied [''B'']])
               (initialState standard [naval, elon]) noWorld)) = Inr afterFirstRound"
    by (simp add: afterFirstRound_def eval_defs)
  have d: "distinct (this_selectedAdvisors (exampleOrchestrator standard [naval, elon]))"
    by (simp add: example_defs)
  show ?thesis
    using round_frame[OF h] h d by blast
qed

end
